theory Spec2Isabelle
  imports Main
begin

section \<open>Data model of vmware.py\<close>

text \<open>
  The script talks to a vSphere host through pyvmomi. The remote objects it touches are
  modelled by the attributes the script reads:
  \<^item> a task object: its string form (\<open>str(task)\<close>) and its \<open>info\<close> (a TaskInfo with
    \<open>state\<close> and \<open>error\<close>);
  \<^item> an update batch returned by \<open>WaitForUpdates\<close>: \<open>version\<close> and \<open>filterSet\<close>, each
    filter update with an \<open>objectSet\<close>, each object update with \<open>obj\<close> and \<open>changeSet\<close>,
    each change with \<open>name\<close> and \<open>val\<close>;
  \<^item> a virtual machine: \<open>name\<close>, \<open>runtime.powerState\<close>, the tasks that \<open>PowerOn()\<close> and
    \<open>PowerOff()\<close> return, and \<open>snapshot\<close>, which is \<open>None\<close> for a machine without snapshots
    and otherwise has a \<open>rootSnapshotList\<close>.
\<close>

datatype TaskInfoState = State_queued | State_running | State_success | State_error

text \<open>Python exceptions that the modelled code can raise or let through.\<close>

datatype exn = MethodFault string | AttributeError | TypeError | UnboundLocalError

record TaskInfo =
  state :: TaskInfoState
  error :: exn

record Task =
  str :: string
  info :: TaskInfo

text \<open>
  The value of a change record (\<open>change.val\<close>) and of the local variable \<open>state\<close>:
  \<open>None\<close>, a task state, or a whole TaskInfo object.
\<close>

datatype pyval = PNone | PState TaskInfoState | PInfo TaskInfo

record PropertyChange =
  name :: string
  val :: pyval

record ObjectUpdate =
  obj :: Task
  changeSet :: "PropertyChange list"

record FilterUpdate =
  objectSet :: "ObjectUpdate list"

record UpdateSet =
  version :: string
  filterSet :: "FilterUpdate list"

type_synonym Filter = string

datatype VirtualMachinePowerState = poweredOff | poweredOn | suspended

datatype SnapshotTree =
  SnapshotTree (snap_name: string) (RevertToSnapshot_Task: Task)
    (childSnapshotList: "SnapshotTree list")

record VirtualMachineSnapshotInfo =
  rootSnapshotList :: "SnapshotTree list"

record VirtualMachine =
  vm_name :: string
  powerState :: VirtualMachinePowerState
  PowerOn :: Task
  PowerOff :: Task
  vm_snapshot :: "VirtualMachineSnapshotInfo option"

text \<open>
  Everything the script does to the outside world, in order: the remote calls it issues
  and the lines it prints.
\<close>

datatype event =
    Call_CreateFilter "Task list"
  | Call_WaitForUpdates "string option"
  | Call_Destroy Filter
  | Call_PowerOn string
  | Call_PowerOff string
  | Call_RevertToSnapshot_Task Task
  | Print string

text \<open>
  The service instance \<open>si\<close> stands for the connection and the remote side:
  \<^item> \<open>CreateFilter\<close>: what \<open>pc.CreateFilter(filterSpec, True)\<close> does for the given object
    specs: raise, or return a filter object (\<open>None\<close> standing for a falsy return value,
    which the \<open>if filter:\<close> test of the source distinguishes);
  \<^item> \<open>updates\<close>: what the successive calls of \<open>pc.WaitForUpdates\<close> will answer, each
    either raising or returning an update batch; once the list is used up the call
    blocks for ever;
  \<^item> \<open>trace\<close>: the events so far.
  The other remote calls (\<open>PowerOn\<close>, \<open>PowerOff\<close>, \<open>RevertToSnapshot_Task\<close>, \<open>Destroy\<close>)
  and the attribute reads are taken to return.
\<close>

record ServiceInstance =
  CreateFilter :: "Task list \<Rightarrow> exn + Filter option"
  updates :: "(exn + UpdateSet) list"
  trace :: "event list"

text \<open>How a call ends: it returns, it raises, or it never returns.\<close>

datatype outcome = Returns | Raises exn | Blocks

definition emit :: "event \<Rightarrow> ServiceInstance \<Rightarrow> ServiceInstance" where
  "emit e si = si\<lparr>trace := trace si @ [e]\<rparr>"

section \<open>WaitForTasks\<close>

text \<open>
  A \<open>for\<close> loop whose body may raise: the body maps the local variables and an element
  to either an exception or the new local variables; the first exception ends the loop.
\<close>

fun for_each :: "('s \<Rightarrow> 'a \<Rightarrow> 'e + 's) \<Rightarrow> 'a list \<Rightarrow> 's \<Rightarrow> 'e + 's" where
  "for_each body [] s = Inr s"
| "for_each body (x # xs) s =
     (case body s x of Inl e \<Rightarrow> Inl e | Inr s' \<Rightarrow> for_each body xs s')"

text \<open>
  Lines 82 to 89: the tracked-handle test and the reaction to the state. The local
  variables are \<open>taskList\<close> and \<open>state\<close>; a raise carries the exception together with
  \<open>taskList\<close> as it is at that moment.
\<close>

definition check_state ::
  "Task \<Rightarrow> string list \<Rightarrow> pyval \<Rightarrow> (exn \<times> string list) + (string list \<times> pyval)" where
  "check_state task taskList st =
     (if str task \<notin> set taskList then Inr (taskList, st)
      else if st = PState State_success then Inr (remove1 (str task) taskList, st)
      else if st = PState State_error then Inl (error (info task), taskList)
      else Inr (taskList, st))"

text \<open>Lines 75 to 89: the body of \<open>for change in objSet.changeSet\<close>.\<close>

definition process_change ::
  "Task \<Rightarrow> string list \<times> pyval \<Rightarrow> PropertyChange
     \<Rightarrow> (exn \<times> string list) + (string list \<times> pyval)" where
  "process_change task s change =
     (case s of (taskList, st) \<Rightarrow>
        if name change = ''info'' then
          (case val change of
             PInfo i \<Rightarrow> check_state task taskList (PState (state i))
           | _ \<Rightarrow> Inl (AttributeError, taskList))
        else if name change = ''info.state'' then check_state task taskList (val change)
        else Inr (taskList, st))"

text \<open>Lines 72 to 89, 71 to 89: the loops over object updates and filter updates.\<close>

definition process_objSet ::
  "string list \<times> pyval \<Rightarrow> ObjectUpdate \<Rightarrow> (exn \<times> string list) + (string list \<times> pyval)" where
  "process_objSet s objSet = for_each (process_change (obj objSet)) (changeSet objSet) s"

definition process_filterSet ::
  "string list \<times> pyval \<Rightarrow> FilterUpdate \<Rightarrow> (exn \<times> string list) + (string list \<times> pyval)" where
  "process_filterSet s fs = for_each process_objSet (objectSet fs) s"

definition process_update ::
  "string list \<times> pyval \<Rightarrow> UpdateSet \<Rightarrow> (exn \<times> string list) + (string list \<times> pyval)" where
  "process_update s update = for_each process_filterSet (filterSet update) s"

text \<open>
  Lines 69 to 91: the \<open>while len(taskList)\<close> loop. Each round issues one
  \<open>WaitForUpdates(version)\<close>; with no answer left the call blocks for ever. The result
  holds the outcome, \<open>taskList\<close> as it is when the loop is left, and the service instance.
\<close>

function wait_loop ::
  "string list \<Rightarrow> pyval \<Rightarrow> string option \<Rightarrow> ServiceInstance
     \<Rightarrow> outcome \<times> string list \<times> ServiceInstance" where
  "wait_loop taskList st ver si =
     (if taskList = [] then (Returns, taskList, si)
      else
        (case updates si of
           [] \<Rightarrow> (Blocks, taskList, emit (Call_WaitForUpdates ver) si)
         | r # rest \<Rightarrow>
             (let si' = (emit (Call_WaitForUpdates ver) si)\<lparr>updates := rest\<rparr> in
              case r of
                Inl e \<Rightarrow> (Raises e, taskList, si')
              | Inr update \<Rightarrow>
                  (case process_update (taskList, st) update of
                     Inl (e, left) \<Rightarrow> (Raises e, left, si')
                   | Inr (taskList', st') \<Rightarrow>
                       wait_loop taskList' st' (Some (version update)) si'))))"
  by pat_completeness auto
termination
  by (relation "measure (\<lambda>(taskList, st, ver, si). length (updates si))")
     (auto simp: emit_def)

declare wait_loop.simps [simp del]

text \<open>
  Lines 56 to 62 build the filter spec: one object spec for each task (modelled by the
  task itself) and a constant property spec. pyVmomi checks every value assigned to a
  field of a data object against the type of the field; \<open>objectSet\<close> is a required array,
  and the assignment of an empty list to it (line 61) raises \<open>TypeError\<close>.
\<close>

definition assign_objectSet :: "Task list \<Rightarrow> exn + Task list" where
  "assign_objectSet objSpecs = (if objSpecs = [] then Inl TypeError else Inr objSpecs)"

text \<open>
  Lines 45 to 94. The filter spec is built and \<open>CreateFilter\<close> is called before the
  \<open>try\<close>: when one of them raises, the exception leaves the function and nothing is
  destroyed. The \<open>finally\<close> block (lines 92 to 94) destroys the filter if it is truthy; it
  runs when the loop returns or raises, not when it blocks.
\<close>

definition finally_block :: "Filter option \<Rightarrow> ServiceInstance \<Rightarrow> ServiceInstance" where
  "finally_block filter' si =
     (case filter' of None \<Rightarrow> si | Some f \<Rightarrow> emit (Call_Destroy f) si)"

definition WaitForTasks :: "Task list \<Rightarrow> ServiceInstance \<Rightarrow> outcome \<times> ServiceInstance" where
  "WaitForTasks tasks si =
     (let taskList = map str tasks;
          objSpecs = tasks
      in case assign_objectSet objSpecs of
           Inl e \<Rightarrow> (Raises e, si)
         | Inr spec \<Rightarrow>
             (let si1 = emit (Call_CreateFilter spec) si
              in case CreateFilter si spec of
                   Inl e \<Rightarrow> (Raises e, si1)
                 | Inr filter' \<Rightarrow>
                     (case wait_loop taskList PNone None si1 of
                        (Blocks, left, si2) \<Rightarrow> (Blocks, si2)
                      | (oc, left, si2) \<Rightarrow> (oc, finally_block filter' si2))))"

section \<open>turn_vm_on, turn_vm_off\<close>

text \<open>
  Lines 96 to 105 and 107 to 116. \<open>vm.PowerOn()\<close> submits the operation and returns its
  task; the loop goes on to the next machine only when \<open>WaitForTasks\<close> returns.
\<close>

fun turn_vm_on ::
  "VirtualMachine list \<Rightarrow> string list \<Rightarrow> ServiceInstance \<Rightarrow> outcome \<times> ServiceInstance" where
  "turn_vm_on [] vmnames si = (Returns, si)"
| "turn_vm_on (vm # vmList) vmnames si =
     (if vm_name vm \<in> set vmnames then
        if powerState vm \<noteq> poweredOn then
          (let si1 = emit (Print ''Powering on machine!'') si;
               task = PowerOn vm;
               si2 = emit (Call_PowerOn (vm_name vm)) si1
           in case WaitForTasks [task] si2 of
                (Returns, si3) \<Rightarrow>
                  turn_vm_on vmList vmnames
                    (emit (Print ''Virtual Machine(s) have been powered ON successfully'') si3)
              | (oc, si3) \<Rightarrow> (oc, si3))
        else turn_vm_on vmList vmnames (emit (Print ''Virtual Machine(s) already ON'') si)
      else turn_vm_on vmList vmnames si)"

fun turn_vm_off ::
  "VirtualMachine list \<Rightarrow> string list \<Rightarrow> ServiceInstance \<Rightarrow> outcome \<times> ServiceInstance" where
  "turn_vm_off [] vmnames si = (Returns, si)"
| "turn_vm_off (vm # vmList) vmnames si =
     (if vm_name vm \<in> set vmnames then
        if powerState vm \<noteq> poweredOff then
          (let si1 = emit (Print ''Powering off machine!'') si;
               task = PowerOff vm;
               si2 = emit (Call_PowerOff (vm_name vm)) si1
           in case WaitForTasks [task] si2 of
                (Returns, si3) \<Rightarrow>
                  turn_vm_off vmList vmnames
                    (emit (Print ''Virtual Machine(s) have been powered OFF successfully'') si3)
              | (oc, si3) \<Rightarrow> (oc, si3))
        else turn_vm_off vmList vmnames (emit (Print ''Virtual Machine(s) already OFF'') si)
      else turn_vm_off vmList vmnames si)"

section \<open>revert_vm\<close>

text \<open>
  Lines 118 to 152. The local variables of the search are \<open>snapshot_found\<close>, \<open>task\<close>
  (unbound until the first match, \<open>None\<close> here) and the service instance. A match prints
  the level, submits the revert and rebinds \<open>task\<close> to the singleton list of the new task;
  \<open>print\<close> with two arguments separates them by a space. Each \<open>break\<close> leaves only the
  loop it stands in. For a requested machine without snapshots \<open>vm.snapshot\<close> is \<open>None\<close>
  and line 122 raises \<open>AttributeError\<close>; the exception leaves \<open>revert_vm\<close> with the events
  so far.
\<close>

type_synonym revert_locals = "bool \<times> Task list option \<times> ServiceInstance"

definition revert_match :: "string \<Rightarrow> SnapshotTree \<Rightarrow> ServiceInstance \<Rightarrow> revert_locals" where
  "revert_match level snapshot si =
     (let si1 = emit (Print (level @ '' Reverting snapshot '' @ '' '' @ snap_name snapshot)) si;
          si2 = emit (Call_RevertToSnapshot_Task (RevertToSnapshot_Task snapshot)) si1
      in (True, Some [RevertToSnapshot_Task snapshot], si2))"

fun level3_loop :: "string \<Rightarrow> SnapshotTree list \<Rightarrow> revert_locals \<Rightarrow> revert_locals" where
  "level3_loop snapshot_name [] s = s"
| "level3_loop snapshot_name (subsnapshot2 # rest) s =
     (if snapshot_name = snap_name subsnapshot2
      then revert_match ''LEVEL3'' subsnapshot2 (snd (snd s))
      else level3_loop snapshot_name rest s)"

fun level2_loop :: "string \<Rightarrow> SnapshotTree list \<Rightarrow> revert_locals \<Rightarrow> revert_locals" where
  "level2_loop snapshot_name [] s = s"
| "level2_loop snapshot_name (subsnapshot # rest) s =
     (if snapshot_name = snap_name subsnapshot
      then revert_match ''LEVEL2'' subsnapshot (snd (snd s))
      else level2_loop snapshot_name rest
             (level3_loop snapshot_name (childSnapshotList subsnapshot) s))"

fun level1_loop :: "string \<Rightarrow> SnapshotTree list \<Rightarrow> revert_locals \<Rightarrow> revert_locals" where
  "level1_loop snapshot_name [] s = s"
| "level1_loop snapshot_name (snapshot # rest) s =
     (if snapshot_name = snap_name snapshot
      then revert_match ''LEVEL1'' snapshot (snd (snd s))
      else level1_loop snapshot_name rest
             (level2_loop snapshot_name (childSnapshotList snapshot) s))"

fun revert_search ::
  "VirtualMachine list \<Rightarrow> string list \<Rightarrow> string \<Rightarrow> revert_locals
     \<Rightarrow> exn \<times> ServiceInstance + revert_locals" where
  "revert_search [] vmnames snapshot_name s = Inr s"
| "revert_search (vm # vmList) vmnames snapshot_name s =
     (if vm_name vm \<in> set vmnames then
        (case vm_snapshot vm of
           None \<Rightarrow> Inl (AttributeError, snd (snd s))
         | Some snapshot_info \<Rightarrow>
             revert_search vmList vmnames snapshot_name
               (level1_loop snapshot_name (rootSnapshotList snapshot_info) s))
      else revert_search vmList vmnames snapshot_name s)"

definition revert_vm ::
  "VirtualMachine list \<Rightarrow> string list \<Rightarrow> string \<Rightarrow> ServiceInstance
     \<Rightarrow> outcome \<times> ServiceInstance" where
  "revert_vm vmList vmnames snapshot_name si =
     (case revert_search vmList vmnames snapshot_name (False, None, si) of
        Inl (e, si1) \<Rightarrow> (Raises e, si1)
      | Inr (snapshot_found, task, si1) \<Rightarrow>
          if snapshot_found then
            (case task of
               None \<Rightarrow> (Raises UnboundLocalError, si1)
             | Some tasks \<Rightarrow>
                 (case WaitForTasks tasks si1 of
                    (Returns, si2) \<Rightarrow> (Returns, emit (Print ''Done reverting'') si2)
                  | (oc, si2) \<Rightarrow> (oc, si2)))
          else (Returns, emit (Print (''Snapshot *'' @ snapshot_name @ ''* not found'')) si1))"

section \<open>Vocabulary of the properties\<close>

text \<open>
  A change record shows the state \<open>s\<close>: it is an \<open>info\<close> record whose value is a TaskInfo
  in state \<open>s\<close>, or an \<open>info.state\<close> record whose value is \<open>s\<close>.
\<close>

definition shows_state :: "PropertyChange \<Rightarrow> TaskInfoState \<Rightarrow> bool" where
  "shows_state change s =
     (name change = ''info'' \<and> (case val change of PInfo i \<Rightarrow> state i = s | _ \<Rightarrow> False)
      \<or> name change = ''info.state'' \<and> val change = PState s)"

text \<open>An \<open>info\<close> record whose value has no \<open>state\<close> attribute.\<close>

definition malformed :: "PropertyChange \<Rightarrow> bool" where
  "malformed change =
     (name change = ''info'' \<and> (case val change of PInfo i \<Rightarrow> False | _ \<Rightarrow> True))"

text \<open>
  The change records of a batch in the order in which the three nested loops visit them,
  each with the task of its object update; one round of the loop body on such a pair.
\<close>

definition records :: "UpdateSet \<Rightarrow> (Task \<times> PropertyChange) list" where
  "records update =
     concat (map (\<lambda>fs. concat (map (\<lambda>os. map (Pair (obj os)) (changeSet os)) (objectSet fs)))
       (filterSet update))"

definition change_step ::
  "string list \<times> pyval \<Rightarrow> Task \<times> PropertyChange \<Rightarrow> (exn \<times> string list) + (string list \<times> pyval)" where
  "change_step s r = process_change (fst r) s (snd r)"

text \<open>The handles for which a list of records shows Success.\<close>

definition success_handles :: "(Task \<times> PropertyChange) list \<Rightarrow> string list" where
  "success_handles rs = map (str \<circ> fst) (filter (\<lambda>r. shows_state (snd r) State_success) rs)"

text \<open>
  No record of the list is malformed, and none shows Error for one of the handles \<open>hs\<close>.
\<close>

definition benign :: "string list \<Rightarrow> (Task \<times> PropertyChange) list \<Rightarrow> bool" where
  "benign hs rs =
     list_all (\<lambda>r. \<not> malformed (snd r) \<and> \<not> (shows_state (snd r) State_error \<and> str (fst r) \<in> set hs)) rs"

text \<open>
  The service instance after the receive calls with the cursors \<open>cs\<close>, each taking one
  answer; the cursor that follows a batch.
\<close>

definition received :: "string option list \<Rightarrow> ServiceInstance \<Rightarrow> ServiceInstance" where
  "received cs si =
     si\<lparr>trace := trace si @ map Call_WaitForUpdates cs, updates := drop (length cs) (updates si)\<rparr>"

definition cursor_of :: "UpdateSet \<Rightarrow> string option" where
  "cursor_of update = Some (version update)"

text \<open>The cursors of the receive calls of a trace, and the filters it destroys.\<close>

fun cursors :: "event list \<Rightarrow> string option list" where
  "cursors [] = []"
| "cursors (Call_WaitForUpdates ver # es) = ver # cursors es"
| "cursors (e # es) = cursors es"

fun destroyed :: "event list \<Rightarrow> Filter list" where
  "destroyed [] = []"
| "destroyed (Call_Destroy f # es) = f # destroyed es"
| "destroyed (e # es) = destroyed es"

text \<open>What a caller can observe of a call: how it ends and the events.\<close>

definition outcome_and_trace :: "outcome \<times> ServiceInstance \<Rightarrow> outcome \<times> event list" where
  "outcome_and_trace r = (fst r, trace (snd r))"

definition loop_result ::
  "outcome \<times> string list \<times> ServiceInstance \<Rightarrow> outcome \<times> string list \<times> event list" where
  "loop_result r = (fst r, fst (snd r), trace (snd (snd r)))"

text \<open>
  The machines a trace powers on and off, and the task lists it waits for (the object
  sets of its filters); the machines whose name is requested, those that \<open>turn_vm_on\<close>
  and \<open>turn_vm_off\<close> have to act on, and the service instance after one line was printed
  for each element of a list.
\<close>

fun power_ons :: "event list \<Rightarrow> string list" where
  "power_ons [] = []"
| "power_ons (Call_PowerOn n # es) = n # power_ons es"
| "power_ons (e # es) = power_ons es"

fun power_offs :: "event list \<Rightarrow> string list" where
  "power_offs [] = []"
| "power_offs (Call_PowerOff n # es) = n # power_offs es"
| "power_offs (e # es) = power_offs es"

fun waited :: "event list \<Rightarrow> Task list list" where
  "waited [] = []"
| "waited (Call_CreateFilter tasks # es) = tasks # waited es"
| "waited (e # es) = waited es"

definition needs_on :: "string list \<Rightarrow> VirtualMachine \<Rightarrow> bool" where
  "needs_on vmnames vm = (vm_name vm \<in> set vmnames \<and> powerState vm \<noteq> poweredOn)"

definition needs_off :: "string list \<Rightarrow> VirtualMachine \<Rightarrow> bool" where
  "needs_off vmnames vm = (vm_name vm \<in> set vmnames \<and> powerState vm \<noteq> poweredOff)"

definition requested :: "string list \<Rightarrow> VirtualMachine \<Rightarrow> bool" where
  "requested vmnames vm = (vm_name vm \<in> set vmnames)"

definition printed :: "string \<Rightarrow> 'a list \<Rightarrow> ServiceInstance \<Rightarrow> ServiceInstance" where
  "printed line xs si = si\<lparr>trace := trace si @ map (\<lambda>x. Print line) xs\<rparr>"

text \<open>
  The snapshots at nesting depth \<open>d\<close> of a list of root snapshots (the roots are at depth
  1), the snapshots at depth 1, 2 and 3, and the revert tasks a trace submits.
\<close>

definition children :: "SnapshotTree list \<Rightarrow> SnapshotTree list" where
  "children ts = concat (map childSnapshotList ts)"

fun at_depth :: "nat \<Rightarrow> SnapshotTree list \<Rightarrow> SnapshotTree list" where
  "at_depth 0 ts = []"
| "at_depth (Suc 0) ts = ts"
| "at_depth (Suc (Suc n)) ts = at_depth (Suc n) (children ts)"

definition searched :: "SnapshotTree list \<Rightarrow> SnapshotTree list" where
  "searched roots = at_depth 1 roots @ at_depth 2 roots @ at_depth 3 roots"

fun reverts :: "event list \<Rightarrow> Task list" where
  "reverts [] = []"
| "reverts (Call_RevertToSnapshot_Task task # es) = task # reverts es"
| "reverts (e # es) = reverts es"

text \<open>
  What the search does, as events. A match prints its level and submits the revert. In a
  list the search stops at the first snapshot with the name; the snapshots before it are
  the ones whose children are searched one level down. \<open>search3\<close>, \<open>search2\<close> and \<open>search1\<close>
  are the events of the loops over grandchildren, children and roots, \<open>search_events\<close>
  those of a list of machines. \<open>apply_search\<close> gives the local variables after such
  events: a snapshot was found if a revert was submitted, and \<open>task\<close> is the singleton list
  of the last revert submitted.
\<close>

definition match_events :: "string \<Rightarrow> SnapshotTree \<Rightarrow> event list" where
  "match_events level x =
     [Print (level @ '' Reverting snapshot '' @ '' '' @ snap_name x),
      Call_RevertToSnapshot_Task (RevertToSnapshot_Task x)]"

definition first_match :: "string \<Rightarrow> string \<Rightarrow> SnapshotTree list \<Rightarrow> event list" where
  "first_match level nm xs =
     (case dropWhile (\<lambda>x. snap_name x \<noteq> nm) xs of [] \<Rightarrow> [] | x # rest \<Rightarrow> match_events level x)"

definition unmatched :: "string \<Rightarrow> SnapshotTree list \<Rightarrow> SnapshotTree list" where
  "unmatched nm xs = takeWhile (\<lambda>x. snap_name x \<noteq> nm) xs"

definition search3 :: "string \<Rightarrow> SnapshotTree list \<Rightarrow> event list" where
  "search3 nm zs = first_match ''LEVEL3'' nm zs"

definition search2 :: "string \<Rightarrow> SnapshotTree list \<Rightarrow> event list" where
  "search2 nm ys =
     concat (map (\<lambda>y. search3 nm (childSnapshotList y)) (unmatched nm ys)) @
     first_match ''LEVEL2'' nm ys"

definition search1 :: "string \<Rightarrow> SnapshotTree list \<Rightarrow> event list" where
  "search1 nm xs =
     concat (map (\<lambda>x. search2 nm (childSnapshotList x)) (unmatched nm xs)) @
     first_match ''LEVEL1'' nm xs"

definition roots_of :: "VirtualMachine \<Rightarrow> SnapshotTree list" where
  "roots_of vm = (case vm_snapshot vm of None \<Rightarrow> [] | Some snapshot_info \<Rightarrow> rootSnapshotList snapshot_info)"

definition has_snapshots :: "VirtualMachine \<Rightarrow> bool" where
  "has_snapshots vm = (vm_snapshot vm \<noteq> None)"

definition search_events :: "string \<Rightarrow> VirtualMachine list \<Rightarrow> event list" where
  "search_events nm vms = concat (map (\<lambda>vm. search1 nm (roots_of vm)) vms)"

definition apply_search :: "event list \<Rightarrow> revert_locals \<Rightarrow> revert_locals" where
  "apply_search evs s =
     (case s of (found, task, si) \<Rightarrow>
        (found \<or> reverts evs \<noteq> [],
         if reverts evs = [] then task else Some [last (reverts evs)],
         si\<lparr>trace := trace si @ evs\<rparr>))"

section \<open>Example inputs\<close>

definition task_A :: Task where
  "task_A = \<lparr>str = ''vim.Task:task-1'', info = \<lparr>state = State_error, error = MethodFault ''disk full''\<rparr>\<rparr>"

definition task_B :: Task where
  "task_B = \<lparr>str = ''vim.Task:task-2'', info = \<lparr>state = State_success, error = MethodFault ''''\<rparr>\<rparr>"

definition task_C :: Task where
  "task_C = \<lparr>str = ''vim.Task:task-3'', info = \<lparr>state = State_success, error = MethodFault ''''\<rparr>\<rparr>"

definition batch :: "string \<Rightarrow> (Task \<times> PropertyChange) list \<Rightarrow> UpdateSet" where
  "batch ver rs =
     \<lparr>version = ver,
      filterSet = [\<lparr>objectSet = map (\<lambda>r. \<lparr>obj = fst r, changeSet = [snd r]\<rparr>) rs\<rparr>]\<rparr>"

definition host :: "(exn + UpdateSet) list \<Rightarrow> ServiceInstance" where
  "host answers = \<lparr>CreateFilter = (\<lambda>tasks. Inr (Some ''filter-1'')), updates = answers, trace = []\<rparr>"

definition success_record :: PropertyChange where
  "success_record = \<lparr>name = ''info.state'', val = PState State_success\<rparr>"

definition error_record :: PropertyChange where
  "error_record =
     \<lparr>name = ''info'', val = PInfo \<lparr>state = State_error, error = MethodFault ''disk full''\<rparr>\<rparr>"

definition running_record :: PropertyChange where
  "running_record = \<lparr>name = ''info.state'', val = PState State_running\<rparr>"

definition success_info_record :: PropertyChange where
  "success_info_record =
     \<lparr>name = ''info'', val = PInfo \<lparr>state = State_success, error = MethodFault ''''\<rparr>\<rparr>"

definition progress_record :: PropertyChange where
  "progress_record = \<lparr>name = ''info.progress'', val = PNone\<rparr>"

definition stateless_info_record :: PropertyChange where
  "stateless_info_record = \<lparr>name = ''info'', val = PNone\<rparr>"

lemmas example_defs =
  task_A_def task_B_def task_C_def batch_def host_def success_record_def error_record_def
  running_record_def success_info_record_def progress_record_def stateless_info_record_def

lemmas eval_defs =
  WaitForTasks_def wait_loop.simps process_update_def process_filterSet_def process_objSet_def
  process_change_def check_state_def finally_block_def assign_objectSet_def emit_def

lemmas run_defs =
  change_step_def records_def shows_state_def malformed_def benign_def success_handles_def
  received_def cursor_of_def

definition vm_web :: VirtualMachine where
  "vm_web = \<lparr>vm_name = ''web'', powerState = poweredOff, PowerOn = task_B, PowerOff = task_A,
              vm_snapshot = None\<rparr>"

definition vm_db :: VirtualMachine where
  "vm_db = \<lparr>vm_name = ''db'', powerState = poweredOn, PowerOn = task_A, PowerOff = task_C,
             vm_snapshot = None\<rparr>"

lemmas vm_eval_defs = vm_web_def vm_db_def needs_on_def needs_off_def requested_def printed_def

definition snapshots_app :: "SnapshotTree list" where
  "snapshots_app =
     [SnapshotTree ''base'' task_A
        [SnapshotTree ''patched'' task_B
           [SnapshotTree ''tested'' task_C
              [SnapshotTree ''deep'' task_A []]]]]"

definition vm_app :: VirtualMachine where
  "vm_app = \<lparr>vm_name = ''app'', powerState = poweredOn, PowerOn = task_A, PowerOff = task_A,
              vm_snapshot = Some \<lparr>rootSnapshotList = snapshots_app\<rparr>\<rparr>"

definition snapshots_twins :: "SnapshotTree list" where
  "snapshots_twins =
     [SnapshotTree ''monday'' task_C [SnapshotTree ''golden'' task_A []],
      SnapshotTree ''tuesday'' task_C [SnapshotTree ''golden'' task_B []]]"

definition vm_twins :: VirtualMachine where
  "vm_twins = \<lparr>vm_name = ''twins'', powerState = poweredOn, PowerOn = task_A, PowerOff = task_A,
                vm_snapshot = Some \<lparr>rootSnapshotList = snapshots_twins\<rparr>\<rparr>"

lemmas search_defs =
  revert_vm_def revert_match_def snapshots_app_def vm_app_def snapshots_twins_def vm_twins_def

section \<open>Properties of the receive loop\<close>

text \<open>
  The nested loops over one batch are one loop over its records; the value of \<open>state\<close>
  on entry never matters, since every round that reads it has set it before.
\<close>

lemma for_each_append:
  "for_each body (xs @ ys) s =
     (case for_each body xs s of Inl e \<Rightarrow> Inl e | Inr s' \<Rightarrow> for_each body ys s')"
  by (induction xs arbitrary: s) (auto split: sum.splits)

lemma for_each_concat:
  "for_each (\<lambda>s x. for_each body (f x) s) xs s = for_each body (concat (map f xs)) s"
  by (induction xs arbitrary: s) (auto simp: for_each_append split: sum.splits)

lemma for_each_map:
  "for_each body (map f xs) s = for_each (\<lambda>s x. body s (f x)) xs s"
  by (induction xs arbitrary: s) (auto split: sum.splits)

lemma process_update_records:
  "process_update s update = for_each change_step (records update) s"
proof -
  have obj: "\<And>s os. process_objSet s os = for_each change_step (map (Pair (obj os)) (changeSet os)) s"
    by (simp add: process_objSet_def for_each_map change_step_def)
  have fs: "\<And>s fs. process_filterSet s fs =
      for_each change_step (concat (map (\<lambda>os. map (Pair (obj os)) (changeSet os)) (objectSet fs))) s"
    unfolding process_filterSet_def
    by (simp add: obj [abs_def] for_each_concat)
  show ?thesis
    unfolding process_update_def records_def
    by (simp add: fs [abs_def] for_each_concat)
qed

lemma process_change_success:
  "shows_state c State_success \<Longrightarrow>
     process_change t (hs, st) c = Inr (remove1 (str t) hs, PState State_success)"
  by (auto simp: process_change_def shows_state_def check_state_def remove1_idem
           split: pyval.splits)

lemma process_change_error:
  "shows_state c State_error \<Longrightarrow> str t \<in> set hs \<Longrightarrow>
     process_change t (hs, st) c = Inl (error (info t), hs)"
  by (auto simp: process_change_def shows_state_def check_state_def split: pyval.splits)

lemma process_change_inactive:
  "str t \<notin> set hs \<Longrightarrow> \<not> malformed c \<Longrightarrow> \<exists>st'. process_change t (hs, st) c = Inr (hs, st')"
  by (auto simp: process_change_def malformed_def check_state_def split: pyval.splits)

lemma process_change_other:
  "name c \<noteq> ''info'' \<Longrightarrow> name c \<noteq> ''info.state'' \<Longrightarrow> process_change t (hs, st) c = Inr (hs, st)"
  by (simp add: process_change_def)

lemma process_change_Inr:
  assumes "process_change t (hs, st) c = Inr (hs', st')"
  shows "hs' = (if shows_state c State_success then remove1 (str t) hs else hs)"
  using assms
  by (auto simp: process_change_def shows_state_def check_state_def remove1_idem
           split: pyval.splits if_splits)


lemma process_change_state_irrelevant:
  "map_sum id fst (process_change t (hs, st1) c) = map_sum id fst (process_change t (hs, st2) c)"
  by (auto simp: process_change_def split: pyval.splits)


lemma change_step_state_irrelevant:
  "map_sum id fst (change_step (hs, st1) r) = map_sum id fst (change_step (hs, st2) r)"
  unfolding change_step_def by (rule process_change_state_irrelevant)

lemma run_state_irrelevant:
  "map_sum id fst (for_each change_step rs (hs, st1)) =
   map_sum id fst (for_each change_step rs (hs, st2))"
proof (induction rs arbitrary: hs st1 st2)
  case Nil
  show ?case by simp
next
  case (Cons r rs)
  have irr: "map_sum id fst (change_step (hs, st1) r) = map_sum id fst (change_step (hs, st2) r)"
    by (rule change_step_state_irrelevant)
  show ?case
  proof (cases "change_step (hs, st1) r")
    case (Inl a)
    with irr show ?thesis by (cases "change_step (hs, st2) r") auto
  next
    case (Inr b)
    with irr obtain hs' sa sb where
      "change_step (hs, st1) r = Inr (hs', sa)" "change_step (hs, st2) r = Inr (hs', sb)"
      by (cases "change_step (hs, st2) r"; cases b) auto
    with Cons.IH [of hs' sa sb] show ?thesis by simp
  qed
qed

lemma run_shrinks:
  "for_each change_step rs (hs, st) = Inr (hs', st') \<Longrightarrow> set hs' \<subseteq> set hs"
proof (induction rs arbitrary: hs st)
  case Nil
  then show ?case by simp
next
  case (Cons r rs)
  from Cons.prems obtain h1 s1 where
    step: "change_step (hs, st) r = Inr (h1, s1)" and rest: "for_each change_step rs (h1, s1) = Inr (hs', st')"
    by (auto split: sum.splits)
  from step have "h1 = (if shows_state (snd r) State_success then remove1 (str (fst r)) hs else hs)"
    unfolding change_step_def by (rule process_change_Inr)
  then have "set h1 \<subseteq> set hs"
    using set_remove1_subset [of "str (fst r)" hs] by (auto split: if_splits)
  with Cons.IH [OF rest] show ?case by blast
qed






lemma wait_loop_done: "wait_loop [] st ver si = (Returns, [], si)"
  by (simp add: wait_loop.simps)

lemma wait_loop_blocks:
  "hs \<noteq> [] \<Longrightarrow> updates si = [] \<Longrightarrow>
     wait_loop hs st ver si = (Blocks, hs, emit (Call_WaitForUpdates ver) si)"
  by (simp add: wait_loop.simps)

lemma wait_loop_receive_raises:
  "hs \<noteq> [] \<Longrightarrow> updates si = Inl e # rest \<Longrightarrow>
     wait_loop hs st ver si = (Raises e, hs, (emit (Call_WaitForUpdates ver) si)\<lparr>updates := rest\<rparr>)"
  by (simp add: wait_loop.simps)

lemma wait_loop_batch:
  "hs \<noteq> [] \<Longrightarrow> updates si = Inr u # rest \<Longrightarrow>
     wait_loop hs st ver si =
       (case for_each change_step (records u) (hs, st) of
          Inl (e, left) \<Rightarrow> (Raises e, left, (emit (Call_WaitForUpdates ver) si)\<lparr>updates := rest\<rparr>)
        | Inr (hs', st') \<Rightarrow>
            wait_loop hs' st' (Some (version u)) ((emit (Call_WaitForUpdates ver) si)\<lparr>updates := rest\<rparr>))"
  by (simp add: wait_loop.simps [of hs] process_update_records Let_def)

lemma wait_loop_state_irrelevant: "wait_loop hs st1 ver si = wait_loop hs st2 ver si"
proof (induction hs st1 ver si arbitrary: st2 rule: wait_loop.induct)
  case (1 hs st1 ver si)
  show ?case
  proof (cases "hs = []")
    case True
    then show ?thesis by (simp add: wait_loop_done)
  next
    case ne: False
    show ?thesis
    proof (cases "updates si")
      case Nil
      with ne show ?thesis by (simp add: wait_loop_blocks)
    next
      case (Cons r rest)
      show ?thesis
      proof (cases r)
        case (Inl e)
        with ne Cons show ?thesis by (simp add: wait_loop_receive_raises)
      next
        case (Inr u)
        let ?si = "(emit (Call_WaitForUpdates ver) si)\<lparr>updates := rest\<rparr>"
        have irr: "map_sum id fst (for_each change_step (records u) (hs, st1)) =
                   map_sum id fst (for_each change_step (records u) (hs, st2))"
          by (rule run_state_irrelevant)
        show ?thesis
        proof (cases "for_each change_step (records u) (hs, st1)")
          case l: (Inl a)
          with irr have "for_each change_step (records u) (hs, st2) = Inl a"
            by (cases "for_each change_step (records u) (hs, st2)") auto
          with l ne Cons Inr show ?thesis by (simp add: wait_loop_batch)
        next
          case r: (Inr b)
          obtain h1 s1 where b: "b = (h1, s1)" by (cases b)
          with r irr obtain s2 where r2: "for_each change_step (records u) (hs, st2) = Inr (h1, s2)"
            by (cases "for_each change_step (records u) (hs, st2)") auto
          from r b have "process_update (hs, st1) u = Inr (h1, s1)"
            by (simp add: process_update_records)
          from "1.IH" [OF ne Cons refl Inr this refl, of s2]
          have "wait_loop h1 s1 (Some (version u)) ?si = wait_loop h1 s2 (Some (version u)) ?si" .
          with r b r2 ne Cons Inr show ?thesis by (simp add: wait_loop_batch)
        qed
      qed
    qed
  qed
qed


lemma received_Nil [simp]: "received [] si = si"
  by (simp add: received_def)

lemma received_step:
  "updates si = r # rest \<Longrightarrow>
     received cs ((emit (Call_WaitForUpdates ver) si)\<lparr>updates := rest\<rparr>) = received (ver # cs) si"
  by (simp add: received_def emit_def)

lemma received_one_empty:
  "updates si = [] \<Longrightarrow> emit (Call_WaitForUpdates ver) si = received [ver] si"
  by (simp add: received_def emit_def)

lemma received_one:
  "updates si = r # rest \<Longrightarrow>
     (emit (Call_WaitForUpdates ver) si)\<lparr>updates := rest\<rparr> = received [ver] si"
  by (simp add: received_def emit_def)

lemma wait_loop_shape:
  "\<exists>cs. snd (snd (wait_loop hs st ver si)) = received cs si \<and>
        (cs = [] \<or> (\<exists>us rest. updates si = map Inr us @ rest \<and> cs = ver # map cursor_of us))"
proof (induction "updates si" arbitrary: hs st ver si)
  case Nil
  show ?case
  proof (cases "hs = []")
    case True
    then show ?thesis by (auto simp: wait_loop_done intro: exI [of _ "[]"])
  next
    case False
    with Nil have "snd (snd (wait_loop hs st ver si)) = received [ver] si"
      by (simp add: wait_loop_blocks received_one_empty)
    moreover have "updates si = map Inr [] @ []" using Nil by simp
    ultimately show ?thesis by (intro exI [of _ "[ver]"]) auto
  qed
next
  case (Cons r rest)
  let ?si = "(emit (Call_WaitForUpdates ver) si)\<lparr>updates := rest\<rparr>"
  from Cons.hyps(2) have upd: "updates si = r # rest" by simp
  have one: "?si = received [ver] si" using upd by (rule received_one)
  have triv: "updates si = map Inr [] @ r # rest" using upd by simp
  have short: "snd (snd (wait_loop hs st ver si)) = received [ver] si \<Longrightarrow> ?case"
    using triv by (intro exI [of _ "[ver]"]) auto
  show ?case
  proof (cases "hs = []")
    case True
    then show ?thesis by (auto simp: wait_loop_done intro: exI [of _ "[]"])
  next
    case ne: False
    show ?thesis
    proof (cases r)
      case (Inl e)
      with ne upd one show ?thesis by (intro short) (simp add: wait_loop_receive_raises)
    next
      case (Inr u)
      show ?thesis
      proof (cases "for_each change_step (records u) (hs, st)")
        case l: (Inl a)
        with ne upd Inr one show ?thesis
          by (intro short) (simp add: wait_loop_batch split: prod.splits)
      next
        case r: (Inr b)
        obtain h1 s1 where b: "b = (h1, s1)" by (cases b)
        have eq: "wait_loop hs st ver si = wait_loop h1 s1 (Some (version u)) ?si"
          using ne upd Inr r b by (simp add: wait_loop_batch)
        have "rest = updates ?si" by simp
        from Cons.hyps(1) [OF this, of h1 s1 "Some (version u)"]
        obtain cs where cs: "snd (snd (wait_loop h1 s1 (Some (version u)) ?si)) = received cs ?si"
          and sh: "cs = [] \<or> (\<exists>us rest'. updates ?si = map Inr us @ rest' \<and>
                      cs = Some (version u) # map cursor_of us)"
          by blast
        from cs eq upd have res: "snd (snd (wait_loop hs st ver si)) = received (ver # cs) si"
          by (simp add: received_step)
        from sh show ?thesis
        proof
          assume "cs = []"
          with res show ?thesis by (intro short) simp
        next
          assume "\<exists>us rest'. updates ?si = map Inr us @ rest' \<and> cs = Some (version u) # map cursor_of us"
          then obtain us rest' where "rest = map Inr us @ rest'" "cs = cursor_of u # map cursor_of us"
            by (auto simp: cursor_of_def)
          with upd Inr have "updates si = map Inr (u # us) @ rest'" "ver # cs = ver # map cursor_of (u # us)"
            by simp_all
          with res show ?thesis by blast
        qed
      qed
    qed
  qed
qed


lemma cursors_append [simp]: "cursors (xs @ ys) = cursors xs @ cursors ys"
  by (induction xs rule: cursors.induct) auto

lemma cursors_calls [simp]: "cursors (map Call_WaitForUpdates cs) = cs"
  by (induction cs) auto

lemma destroyed_append [simp]: "destroyed (xs @ ys) = destroyed xs @ destroyed ys"
  by (induction xs rule: destroyed.induct) auto

lemma destroyed_calls [simp]: "destroyed (map Call_WaitForUpdates cs) = []"
  by (induction cs) auto

lemma WaitForTasks_empty: "WaitForTasks [] si = (Raises TypeError, si)"
  by (simp add: WaitForTasks_def assign_objectSet_def)

lemma WaitForTasks_create_raises:
  "tasks \<noteq> [] \<Longrightarrow> CreateFilter si tasks = Inl e \<Longrightarrow>
     WaitForTasks tasks si = (Raises e, emit (Call_CreateFilter tasks) si)"
  by (simp add: WaitForTasks_def assign_objectSet_def)

lemma WaitForTasks_loop:
  "tasks \<noteq> [] \<Longrightarrow> CreateFilter si tasks = Inr flt \<Longrightarrow>
   wait_loop (map str tasks) PNone None (emit (Call_CreateFilter tasks) si) = (oc, left, si2) \<Longrightarrow>
     WaitForTasks tasks si =
       (oc, if oc = Blocks then si2 else finally_block flt si2)"
  by (cases oc) (simp_all add: WaitForTasks_def assign_objectSet_def)

lemma WaitForTasks_shape:
  assumes ne: "tasks \<noteq> []"
  shows "\<exists>cs. snd (WaitForTasks tasks si) =
       (case CreateFilter si tasks of
          Inl e \<Rightarrow> emit (Call_CreateFilter tasks) si
        | Inr flt \<Rightarrow>
            (let si2 = received cs (emit (Call_CreateFilter tasks) si)
             in if fst (WaitForTasks tasks si) = Blocks then si2 else finally_block flt si2)) \<and>
     (cs = [] \<or> (\<exists>us rest. updates si = map Inr us @ rest \<and> cs = None # map cursor_of us))"
proof (cases "CreateFilter si tasks")
  case (Inl e)
  with ne show ?thesis by (auto simp: WaitForTasks_create_raises)
next
  case (Inr flt)
  let ?si1 = "emit (Call_CreateFilter tasks) si"
  obtain oc left si2 where w: "wait_loop (map str tasks) PNone None ?si1 = (oc, left, si2)"
    by (cases "wait_loop (map str tasks) PNone None ?si1") auto
  from wait_loop_shape [of "map str tasks" PNone None ?si1] w
  obtain cs where cs: "si2 = received cs ?si1"
    and sh: "cs = [] \<or> (\<exists>us rest. updates ?si1 = map Inr us @ rest \<and> cs = None # map cursor_of us)"
    by auto
  have "updates ?si1 = updates si" by (simp add: emit_def)
  with sh have sh': "cs = [] \<or> (\<exists>us rest. updates si = map Inr us @ rest \<and> cs = None # map cursor_of us)"
    by simp
  from WaitForTasks_loop [OF ne Inr w] cs Inr sh' show ?thesis
    by (intro exI [of _ cs]) (simp add: Let_def)
qed

lemma received_received: "received cs2 (received cs1 si) = received (cs1 @ cs2) si"
  by (simp add: received_def add.commute)

lemma received_updates: "updates (received cs si) = drop (length cs) (updates si)"
  by (simp add: received_def)



lemma wait_loop_run:
  "for_each change_step (concat (map records us)) (hs, st) = Inr (h1, s1) \<Longrightarrow> h1 \<noteq> [] \<Longrightarrow>
   updates si = map Inr us @ rest \<Longrightarrow>
     wait_loop hs st ver si =
       wait_loop h1 s1 (last (ver # map cursor_of us)) (received (butlast (ver # map cursor_of us)) si)"
proof (induction us arbitrary: hs st ver si)
  case Nil
  then show ?case by simp
next
  case (Cons u us)
  let ?si = "(emit (Call_WaitForUpdates ver) si)\<lparr>updates := map Inr us @ rest\<rparr>"
  from Cons.prems(3) have upd: "updates si = Inr u # (map Inr us @ rest)" by simp
  from Cons.prems(1) obtain h2 s2 where
    first: "for_each change_step (records u) (hs, st) = Inr (h2, s2)" and
    more: "for_each change_step (concat (map records us)) (h2, s2) = Inr (h1, s1)"
    by (auto simp: for_each_append split: sum.splits)
  from more have "set h1 \<subseteq> set h2" by (rule run_shrinks)
  moreover from first have "set h2 \<subseteq> set hs" by (rule run_shrinks)
  ultimately have ne: "hs \<noteq> []" using Cons.prems(2) by auto
  have "wait_loop hs st ver si = wait_loop h2 s2 (Some (version u)) ?si"
    using ne upd first by (simp add: wait_loop_batch)
  also have "\<dots> = wait_loop h1 s1 (last (cursor_of u # map cursor_of us))
                     (received (butlast (cursor_of u # map cursor_of us)) ?si)"
    unfolding cursor_of_def [of u, symmetric]
    by (rule Cons.IH [OF more Cons.prems(2)]) simp
  also have "received (butlast (cursor_of u # map cursor_of us)) ?si =
             received (ver # butlast (cursor_of u # map cursor_of us)) si"
    using upd by (rule received_step)
  finally show ?case by simp
qed


lemma wait_loop_error:
  assumes run: "for_each change_step (concat (map records us) @ pre) (hs0, st0) = Inr (hs, st)"
    and upd: "updates si = map Inr us @ Inr u # rest"
    and recs: "records u = pre @ (t, c) # post"
    and active: "str t \<in> set hs"
    and err: "shows_state c State_error"
  shows "wait_loop hs0 st0 ver si =
           (Raises (error (info t)), hs, received (ver # map cursor_of us) si)"
proof -
  from run obtain h1 s1 where
    before: "for_each change_step (concat (map records us)) (hs0, st0) = Inr (h1, s1)" and
    pre: "for_each change_step pre (h1, s1) = Inr (hs, st)"
    by (auto simp: for_each_append split: sum.splits)
  from pre have "set hs \<subseteq> set h1" by (rule run_shrinks)
  with active have ne: "h1 \<noteq> []" by auto
  let ?cs = "ver # map cursor_of us"
  let ?si = "received (butlast ?cs) si"
  have len: "length (butlast ?cs) = length us" by simp
  have upd': "updates ?si = Inr u # rest"
    unfolding received_updates len using upd by simp
  have "change_step (hs, st) (t, c) = Inl (error (info t), hs)"
    using err active by (simp add: change_step_def process_change_error)
  with pre recs have raise: "for_each change_step (records u) (h1, s1) = Inl (error (info t), hs)"
    by (simp add: for_each_append)
  have "wait_loop hs0 st0 ver si = wait_loop h1 s1 (last ?cs) ?si"
    using before ne upd by (rule wait_loop_run)
  also have "\<dots> = (Raises (error (info t)), hs, (emit (Call_WaitForUpdates (last ?cs)) ?si)\<lparr>updates := rest\<rparr>)"
    using ne upd' raise by (simp add: wait_loop_batch)
  also have "(emit (Call_WaitForUpdates (last ?cs)) ?si)\<lparr>updates := rest\<rparr> = received [last ?cs] ?si"
    using upd' by (rule received_one)
  also have "\<dots> = received (butlast ?cs @ [last ?cs]) si"
    by (rule received_received)
  also have "butlast ?cs @ [last ?cs] = ?cs"
    by (rule append_butlast_last_id) simp
  finally show ?thesis .
qed


lemma emit_updates: "(emit e (si\<lparr>updates := xs\<rparr>))\<lparr>updates := ys\<rparr> = (emit e si)\<lparr>updates := ys\<rparr>"
  by (simp add: emit_def)

lemma run_skip_record:
  assumes noop: "\<And>h1 s1. for_each change_step pre (hs, st) = Inr (h1, s1) \<Longrightarrow>
                   \<exists>s'. change_step (h1, s1) r = Inr (h1, s')"
  shows "map_sum id fst (for_each change_step (pre @ r # post) (hs, st)) =
         map_sum id fst (for_each change_step (pre @ post) (hs, st))"
proof (cases "for_each change_step pre (hs, st)")
  case (Inl a)
  then show ?thesis by (simp add: for_each_append)
next
  case (Inr b)
  obtain h1 s1 where b: "b = (h1, s1)" by (cases b)
  with Inr noop obtain s' where "change_step (h1, s1) r = Inr (h1, s')" by blast
  with Inr b show ?thesis
    using run_state_irrelevant [of post h1 s' s1] by (simp add: for_each_append)
qed

lemma wait_loop_skip_record:
  assumes recs1: "records u1 = pre @ r # post" and recs2: "records u2 = pre @ post"
    and ver: "version u1 = version u2"
    and noop: "\<And>h1 s1. for_each change_step (concat (map records us) @ pre) (hs, st) = Inr (h1, s1) \<Longrightarrow>
                   \<exists>s'. change_step (h1, s1) r = Inr (h1, s')"
  shows "loop_result (wait_loop hs st ver0 (si\<lparr>updates := map Inr us @ Inr u1 # rest\<rparr>)) =
         loop_result (wait_loop hs st ver0 (si\<lparr>updates := map Inr us @ Inr u2 # rest\<rparr>))"
  using noop
proof (induction us arbitrary: hs st ver0 si)
  case Nil
  show ?case
  proof (cases "hs = []")
    case True
    then show ?thesis by (simp add: wait_loop_done loop_result_def)
  next
    case ne: False
    let ?si = "(emit (Call_WaitForUpdates ver0) si)\<lparr>updates := rest\<rparr>"
    have w1: "wait_loop hs st ver0 (si\<lparr>updates := Inr u1 # rest\<rparr>) =
       (case for_each change_step (pre @ r # post) (hs, st) of
          Inl (e, left) \<Rightarrow> (Raises e, left, ?si)
        | Inr (hs', st') \<Rightarrow> wait_loop hs' st' (Some (version u2)) ?si)"
      using ne by (simp add: wait_loop_batch [where rest = rest] recs1 ver emit_updates split: sum.splits prod.splits)
    have w2: "wait_loop hs st ver0 (si\<lparr>updates := Inr u2 # rest\<rparr>) =
       (case for_each change_step (pre @ post) (hs, st) of
          Inl (e, left) \<Rightarrow> (Raises e, left, ?si)
        | Inr (hs', st') \<Rightarrow> wait_loop hs' st' (Some (version u2)) ?si)"
      using ne by (simp add: wait_loop_batch [where rest = rest] recs2 emit_updates split: sum.splits prod.splits)
    have eq: "map_sum id fst (for_each change_step (pre @ r # post) (hs, st)) =
              map_sum id fst (for_each change_step (pre @ post) (hs, st))"
      by (rule run_skip_record) (use Nil.prems in simp)
    have "wait_loop hs st ver0 (si\<lparr>updates := Inr u1 # rest\<rparr>) =
          wait_loop hs st ver0 (si\<lparr>updates := Inr u2 # rest\<rparr>)"
    proof (cases "for_each change_step (pre @ r # post) (hs, st)")
      case (Inl a)
      with eq have "for_each change_step (pre @ post) (hs, st) = Inl a"
        by (cases "for_each change_step (pre @ post) (hs, st)") auto
      with Inl w1 w2 show ?thesis by simp
    next
      case (Inr b)
      obtain h2 sa where b: "b = (h2, sa)" by (cases b)
      with Inr eq obtain sb where "for_each change_step (pre @ post) (hs, st) = Inr (h2, sb)"
        by (cases "for_each change_step (pre @ post) (hs, st)") auto
      with Inr b w1 w2 show ?thesis
        using wait_loop_state_irrelevant [of h2 sa _ _ sb] by simp
    qed
    then show ?thesis by simp
  qed
next
  case (Cons a us)
  show ?case
  proof (cases "hs = []")
    case True
    then show ?thesis by (simp add: wait_loop_done loop_result_def)
  next
    case ne: False
    let ?si = "emit (Call_WaitForUpdates ver0) si"
    have w: "wait_loop hs st ver0 (si\<lparr>updates := Inr a # map Inr us @ Inr u # rest\<rparr>) =
       (case for_each change_step (records a) (hs, st) of
          Inl (e, left) \<Rightarrow> (Raises e, left, ?si\<lparr>updates := map Inr us @ Inr u # rest\<rparr>)
        | Inr (hs', st') \<Rightarrow>
            wait_loop hs' st' (Some (version a)) (?si\<lparr>updates := map Inr us @ Inr u # rest\<rparr>))" for u
      using ne by (simp add: wait_loop_batch [where rest = "map Inr us @ Inr u # rest"] emit_updates split: sum.splits prod.splits)
    show ?thesis
    proof (cases "for_each change_step (records a) (hs, st)")
      case (Inl x)
      then show ?thesis by (cases x) (simp add: w loop_result_def)
    next
      case (Inr b)
      obtain h1 s1 where b: "b = (h1, s1)" by (cases b)
      have "loop_result (wait_loop h1 s1 (Some (version a)) (?si\<lparr>updates := map Inr us @ Inr u1 # rest\<rparr>)) =
            loop_result (wait_loop h1 s1 (Some (version a)) (?si\<lparr>updates := map Inr us @ Inr u2 # rest\<rparr>))"
      proof (rule Cons.IH)
        fix h2 s2
        assume "for_each change_step (concat (map records us) @ pre) (h1, s1) = Inr (h2, s2)"
        with Inr b have "for_each change_step (concat (map records (a # us)) @ pre) (hs, st) = Inr (h2, s2)"
          by (simp add: for_each_append)
        then show "\<exists>s'. change_step (h2, s2) r = Inr (h2, s')" by (rule Cons.prems)
      qed
      with Inr b show ?thesis by (simp add: w)
    qed
  qed
qed

lemma WaitForTasks_skip_record:
  assumes recs1: "records u1 = pre @ r # post" and recs2: "records u2 = pre @ post"
    and ver: "version u1 = version u2"
    and noop: "\<And>h1 s1. for_each change_step (concat (map records us) @ pre) (map str tasks, PNone) = Inr (h1, s1) \<Longrightarrow>
                   \<exists>s'. change_step (h1, s1) r = Inr (h1, s')"
  shows "outcome_and_trace (WaitForTasks tasks (si\<lparr>updates := map Inr us @ Inr u1 # rest\<rparr>)) =
         outcome_and_trace (WaitForTasks tasks (si\<lparr>updates := map Inr us @ Inr u2 # rest\<rparr>))"
proof (cases "tasks = []")
  case True
  then show ?thesis by (simp add: WaitForTasks_empty outcome_and_trace_def)
next
  case ne: False
  let ?s1 = "si\<lparr>updates := map Inr us @ Inr u1 # rest\<rparr>"
  let ?s2 = "si\<lparr>updates := map Inr us @ Inr u2 # rest\<rparr>"
  let ?e = "emit (Call_CreateFilter tasks) si"
  have e: "emit (Call_CreateFilter tasks) ?s1 = ?e\<lparr>updates := map Inr us @ Inr u1 # rest\<rparr>"
    "emit (Call_CreateFilter tasks) ?s2 = ?e\<lparr>updates := map Inr us @ Inr u2 # rest\<rparr>"
    by (simp_all add: emit_def)
  have lr: "loop_result (wait_loop (map str tasks) PNone None (emit (Call_CreateFilter tasks) ?s1)) =
        loop_result (wait_loop (map str tasks) PNone None (emit (Call_CreateFilter tasks) ?s2))"
    unfolding e using recs1 recs2 ver noop by (rule wait_loop_skip_record)
  show ?thesis
  proof (cases "CreateFilter si tasks")
    case (Inl x)
    with ne show ?thesis
      by (simp add: WaitForTasks_create_raises outcome_and_trace_def emit_def)
  next
    case (Inr flt)
    obtain oc1 l1 t1 where r1: "wait_loop (map str tasks) PNone None (emit (Call_CreateFilter tasks) ?s1) = (oc1, l1, t1)"
      by (metis prod_cases3)
    obtain oc2 l2 t2 where r2: "wait_loop (map str tasks) PNone None (emit (Call_CreateFilter tasks) ?s2) = (oc2, l2, t2)"
      by (metis prod_cases3)
    from lr r1 r2 have same: "oc1 = oc2" "trace t1 = trace t2"
      by (simp_all add: loop_result_def)
    have c1: "CreateFilter ?s1 tasks = Inr flt" and c2: "CreateFilter ?s2 tasks = Inr flt"
      using Inr by simp_all
    show ?thesis
      unfolding WaitForTasks_loop [OF ne c1 r1] WaitForTasks_loop [OF ne c2 r2]
      using same by (simp add: outcome_and_trace_def finally_block_def emit_def split: option.splits)
  qed
qed


section \<open>Properties of the power operations\<close>

lemma power_ons_append [simp]: "power_ons (xs @ ys) = power_ons xs @ power_ons ys"
  by (induction xs rule: power_ons.induct) auto

lemma power_offs_append [simp]: "power_offs (xs @ ys) = power_offs xs @ power_offs ys"
  by (induction xs rule: power_offs.induct) auto

lemma waited_append [simp]: "waited (xs @ ys) = waited xs @ waited ys"
  by (induction xs rule: waited.induct) auto

lemma calls_no_submit [simp]:
  "power_ons (map Call_WaitForUpdates cs) = []"
  "power_offs (map Call_WaitForUpdates cs) = []"
  "waited (map Call_WaitForUpdates cs) = []"
  by (induction cs) auto

lemma WaitForTasks_events:
  assumes ne: "tasks \<noteq> []"
  shows "\<exists>evs. trace (snd (WaitForTasks tasks si)) = trace si @ Call_CreateFilter tasks # evs \<and>
         power_ons evs = [] \<and> power_offs evs = [] \<and> waited evs = []"
proof -
  from WaitForTasks_shape [OF ne, of si] obtain cs where
    sh: "snd (WaitForTasks tasks si) =
       (case CreateFilter si tasks of
          Inl e \<Rightarrow> emit (Call_CreateFilter tasks) si
        | Inr flt \<Rightarrow>
            (let si2 = received cs (emit (Call_CreateFilter tasks) si)
             in if fst (WaitForTasks tasks si) = Blocks then si2 else finally_block flt si2))"
    by blast
  show ?thesis
  proof (cases "CreateFilter si tasks")
    case (Inl e)
    with sh have "trace (snd (WaitForTasks tasks si)) = trace si @ Call_CreateFilter tasks # []"
      by (simp add: emit_def)
    then show ?thesis by (intro exI [of _ "[]"]) simp
  next
    case (Inr flt)
    let ?d = "if fst (WaitForTasks tasks si) = Blocks then []
              else (case flt of None \<Rightarrow> [] | Some f \<Rightarrow> [Call_Destroy f])"
    from Inr sh have "trace (snd (WaitForTasks tasks si)) =
        trace si @ Call_CreateFilter tasks # (map Call_WaitForUpdates cs @ ?d)"
      by (auto simp: emit_def received_def finally_block_def Let_def split: option.splits)
    moreover have "power_ons (map Call_WaitForUpdates cs @ ?d) = []"
      "power_offs (map Call_WaitForUpdates cs @ ?d) = []"
      "waited (map Call_WaitForUpdates cs @ ?d) = []"
      by (auto split: option.splits)
    ultimately show ?thesis by blast
  qed
qed

lemma printed_Nil [simp]: "printed line [] si = si"
  by (simp add: printed_def)

lemma printed_Cons: "printed line (x # xs) si = printed line xs (emit (Print line) si)"
  by (simp add: printed_def emit_def)

lemma turn_vm_on_nothing:
  "filter (needs_on vmnames) vmList = [] \<Longrightarrow>
     turn_vm_on vmList vmnames si =
       (Returns, printed ''Virtual Machine(s) already ON'' (filter (requested vmnames) vmList) si)"
proof (induction vmList arbitrary: si)
  case Nil
  show ?case by simp
next
  case (Cons vm vmList)
  from Cons.prems have rest: "filter (needs_on vmnames) vmList = []"
    and here: "\<not> needs_on vmnames vm"
    by (auto split: if_splits)
  show ?case
  proof (cases "vm_name vm \<in> set vmnames")
    case False
    with Cons.IH [OF rest, of si] show ?thesis by (simp add: requested_def)
  next
    case True
    with here have "powerState vm = poweredOn" by (simp add: needs_on_def)
    with True Cons.IH [OF rest, of "emit (Print ''Virtual Machine(s) already ON'') si"]
    show ?thesis by (simp add: requested_def printed_Cons)
  qed
qed

lemma turn_vm_on_first:
  "filter (needs_on vmnames) skipped = [] \<Longrightarrow> needs_on vmnames vm \<Longrightarrow>
     turn_vm_on (skipped @ vm # rest) vmnames si =
       (case WaitForTasks [PowerOn vm]
               (emit (Call_PowerOn (vm_name vm))
                  (emit (Print ''Powering on machine!'')
                     (printed ''Virtual Machine(s) already ON'' (filter (requested vmnames) skipped) si))) of
          (Returns, si3) \<Rightarrow>
            turn_vm_on rest vmnames
              (emit (Print ''Virtual Machine(s) have been powered ON successfully'') si3)
        | (oc, si3) \<Rightarrow> (oc, si3))"
proof (induction skipped arbitrary: si)
  case Nil
  then show ?case by (simp add: needs_on_def Let_def)
next
  case (Cons x skipped)
  from Cons.prems have rest: "filter (needs_on vmnames) skipped = []"
    and here: "\<not> needs_on vmnames x"
    by (auto split: if_splits)
  show ?case
  proof (cases "vm_name x \<in> set vmnames")
    case False
    with Cons.IH [OF rest Cons.prems(2), of si] show ?thesis by (simp add: requested_def)
  next
    case True
    with here have "powerState x = poweredOn" by (simp add: needs_on_def)
    with True Cons.IH [OF rest Cons.prems(2), of "emit (Print ''Virtual Machine(s) already ON'') si"]
    show ?thesis by (simp add: requested_def printed_Cons)
  qed
qed

lemma turn_vm_on_events:
  "\<exists>evs. trace (snd (turn_vm_on vmList vmnames si)) = trace si @ evs \<and>
         power_ons evs = map vm_name (take (length (power_ons evs)) (filter (needs_on vmnames) vmList)) \<and>
         waited evs = map (\<lambda>vm. [PowerOn vm]) (take (length (power_ons evs)) (filter (needs_on vmnames) vmList)) \<and>
         (fst (turn_vm_on vmList vmnames si) = Returns \<longrightarrow>
            length (power_ons evs) = length (filter (needs_on vmnames) vmList)) \<and>
         (filter (needs_on vmnames) vmList \<noteq> [] \<longrightarrow> power_ons evs \<noteq> [])"
proof (induction vmList arbitrary: si)
  case Nil
  show ?case by (intro exI [of _ "[]"]) simp
next
  case (Cons vm vmList)
  show ?case
  proof (cases "vm_name vm \<in> set vmnames")
    case False
    with Cons.IH [of si] show ?thesis by (simp add: needs_on_def)
  next
    case sel: True
    show ?thesis
    proof (cases "powerState vm = poweredOn")
      case True
      let ?si = "emit (Print ''Virtual Machine(s) already ON'') si"
      from Cons.IH [of ?si] obtain evs where
        evs: "trace (snd (turn_vm_on vmList vmnames ?si)) = trace ?si @ evs"
        "power_ons evs = map vm_name (take (length (power_ons evs)) (filter (needs_on vmnames) vmList))"
        "waited evs = map (\<lambda>vm. [PowerOn vm]) (take (length (power_ons evs)) (filter (needs_on vmnames) vmList))"
        "fst (turn_vm_on vmList vmnames ?si) = Returns \<longrightarrow>
            length (power_ons evs) = length (filter (needs_on vmnames) vmList)"
        "filter (needs_on vmnames) vmList \<noteq> [] \<longrightarrow> power_ons evs \<noteq> []"
        by blast
      have eq: "turn_vm_on (vm # vmList) vmnames si = turn_vm_on vmList vmnames ?si"
        using sel True by simp
      have nd: "filter (needs_on vmnames) (vm # vmList) = filter (needs_on vmnames) vmList"
        using True by (simp add: needs_on_def)
      show ?thesis
        unfolding eq nd using evs
        by (intro exI [of _ "Print ''Virtual Machine(s) already ON'' # evs"]) (simp add: emit_def)
    next
      case off: False
      let ?si2 = "emit (Call_PowerOn (vm_name vm)) (emit (Print ''Powering on machine!'') si)"
      let ?pre = "[Print ''Powering on machine!'', Call_PowerOn (vm_name vm), Call_CreateFilter [PowerOn vm]]"
      have nd: "filter (needs_on vmnames) (vm # vmList) = vm # filter (needs_on vmnames) vmList"
        using sel off by (simp add: needs_on_def)
      obtain oc si3 where w: "WaitForTasks [PowerOn vm] ?si2 = (oc, si3)"
        by (cases "WaitForTasks [PowerOn vm] ?si2") auto
      have "[PowerOn vm] \<noteq> []" by simp
      from WaitForTasks_events [OF this, of ?si2] w obtain wevs where
        wevs: "trace si3 = trace ?si2 @ Call_CreateFilter [PowerOn vm] # wevs"
        "power_ons wevs = []" "power_offs wevs = []" "waited wevs = []"
        by auto
      then have tr3: "trace si3 = trace si @ ?pre @ wevs"
        by (simp add: emit_def)
      show ?thesis
      proof (cases "oc = Returns")
        case False
        then have eq: "turn_vm_on (vm # vmList) vmnames si = (oc, si3)"
          using sel off w by (cases oc) (simp_all add: Let_def)
        show ?thesis
          unfolding eq nd using tr3 wevs False
          by (intro exI [of _ "?pre @ wevs"]) simp
      next
        case True
        let ?si4 = "emit (Print ''Virtual Machine(s) have been powered ON successfully'') si3"
        have eq: "turn_vm_on (vm # vmList) vmnames si = turn_vm_on vmList vmnames ?si4"
          using sel off w True by (simp add: Let_def)
        from Cons.IH [of ?si4] obtain evs where
          evs: "trace (snd (turn_vm_on vmList vmnames ?si4)) = trace ?si4 @ evs"
          "power_ons evs = map vm_name (take (length (power_ons evs)) (filter (needs_on vmnames) vmList))"
          "waited evs = map (\<lambda>vm. [PowerOn vm]) (take (length (power_ons evs)) (filter (needs_on vmnames) vmList))"
          "fst (turn_vm_on vmList vmnames ?si4) = Returns \<longrightarrow>
              length (power_ons evs) = length (filter (needs_on vmnames) vmList)"
          "filter (needs_on vmnames) vmList \<noteq> [] \<longrightarrow> power_ons evs \<noteq> []"
          by blast
        let ?all = "?pre @ wevs @ Print ''Virtual Machine(s) have been powered ON successfully'' # evs"
        have tr: "trace (snd (turn_vm_on vmList vmnames ?si4)) = trace si @ ?all"
          using evs(1) tr3 by (simp add: emit_def)
        have po: "power_ons ?all = vm_name vm # power_ons evs" using wevs by simp
        have wa: "waited ?all = [PowerOn vm] # waited evs" using wevs by simp
        show ?thesis
          unfolding eq nd
          apply (intro exI [of _ ?all] conjI)
             apply (rule tr)
          unfolding po wa
          using evs(2,3,4) by simp_all
      qed
    qed
  qed
qed

lemma turn_vm_off_nothing:
  "filter (needs_off vmnames) vmList = [] \<Longrightarrow>
     turn_vm_off vmList vmnames si =
       (Returns, printed ''Virtual Machine(s) already OFF'' (filter (requested vmnames) vmList) si)"
proof (induction vmList arbitrary: si)
  case Nil
  show ?case by simp
next
  case (Cons vm vmList)
  from Cons.prems have rest: "filter (needs_off vmnames) vmList = []"
    and here: "\<not> needs_off vmnames vm"
    by (auto split: if_splits)
  show ?case
  proof (cases "vm_name vm \<in> set vmnames")
    case False
    with Cons.IH [OF rest, of si] show ?thesis by (simp add: requested_def)
  next
    case True
    with here have "powerState vm = poweredOff" by (simp add: needs_off_def)
    with True Cons.IH [OF rest, of "emit (Print ''Virtual Machine(s) already OFF'') si"]
    show ?thesis by (simp add: requested_def printed_Cons)
  qed
qed

lemma turn_vm_off_first:
  "filter (needs_off vmnames) skipped = [] \<Longrightarrow> needs_off vmnames vm \<Longrightarrow>
     turn_vm_off (skipped @ vm # rest) vmnames si =
       (case WaitForTasks [PowerOff vm]
               (emit (Call_PowerOff (vm_name vm))
                  (emit (Print ''Powering off machine!'')
                     (printed ''Virtual Machine(s) already OFF'' (filter (requested vmnames) skipped) si))) of
          (Returns, si3) \<Rightarrow>
            turn_vm_off rest vmnames
              (emit (Print ''Virtual Machine(s) have been powered OFF successfully'') si3)
        | (oc, si3) \<Rightarrow> (oc, si3))"
proof (induction skipped arbitrary: si)
  case Nil
  then show ?case by (simp add: needs_off_def Let_def)
next
  case (Cons x skipped)
  from Cons.prems have rest: "filter (needs_off vmnames) skipped = []"
    and here: "\<not> needs_off vmnames x"
    by (auto split: if_splits)
  show ?case
  proof (cases "vm_name x \<in> set vmnames")
    case False
    with Cons.IH [OF rest Cons.prems(2), of si] show ?thesis by (simp add: requested_def)
  next
    case True
    with here have "powerState x = poweredOff" by (simp add: needs_off_def)
    with True Cons.IH [OF rest Cons.prems(2), of "emit (Print ''Virtual Machine(s) already OFF'') si"]
    show ?thesis by (simp add: requested_def printed_Cons)
  qed
qed

lemma turn_vm_off_events:
  "\<exists>evs. trace (snd (turn_vm_off vmList vmnames si)) = trace si @ evs \<and>
         power_offs evs = map vm_name (take (length (power_offs evs)) (filter (needs_off vmnames) vmList)) \<and>
         waited evs = map (\<lambda>vm. [PowerOff vm]) (take (length (power_offs evs)) (filter (needs_off vmnames) vmList)) \<and>
         (fst (turn_vm_off vmList vmnames si) = Returns \<longrightarrow>
            length (power_offs evs) = length (filter (needs_off vmnames) vmList)) \<and>
         (filter (needs_off vmnames) vmList \<noteq> [] \<longrightarrow> power_offs evs \<noteq> [])"
proof (induction vmList arbitrary: si)
  case Nil
  show ?case by (intro exI [of _ "[]"]) simp
next
  case (Cons vm vmList)
  show ?case
  proof (cases "vm_name vm \<in> set vmnames")
    case False
    with Cons.IH [of si] show ?thesis by (simp add: needs_off_def)
  next
    case sel: True
    show ?thesis
    proof (cases "powerState vm = poweredOff")
      case True
      let ?si = "emit (Print ''Virtual Machine(s) already OFF'') si"
      from Cons.IH [of ?si] obtain evs where
        evs: "trace (snd (turn_vm_off vmList vmnames ?si)) = trace ?si @ evs"
        "power_offs evs = map vm_name (take (length (power_offs evs)) (filter (needs_off vmnames) vmList))"
        "waited evs = map (\<lambda>vm. [PowerOff vm]) (take (length (power_offs evs)) (filter (needs_off vmnames) vmList))"
        "fst (turn_vm_off vmList vmnames ?si) = Returns \<longrightarrow>
            length (power_offs evs) = length (filter (needs_off vmnames) vmList)"
        "filter (needs_off vmnames) vmList \<noteq> [] \<longrightarrow> power_offs evs \<noteq> []"
        by blast
      have eq: "turn_vm_off (vm # vmList) vmnames si = turn_vm_off vmList vmnames ?si"
        using sel True by simp
      have nd: "filter (needs_off vmnames) (vm # vmList) = filter (needs_off vmnames) vmList"
        using True by (simp add: needs_off_def)
      show ?thesis
        unfolding eq nd using evs
        by (intro exI [of _ "Print ''Virtual Machine(s) already OFF'' # evs"]) (simp add: emit_def)
    next
      case on: False
      let ?si2 = "emit (Call_PowerOff (vm_name vm)) (emit (Print ''Powering off machine!'') si)"
      let ?pre = "[Print ''Powering off machine!'', Call_PowerOff (vm_name vm), Call_CreateFilter [PowerOff vm]]"
      have nd: "filter (needs_off vmnames) (vm # vmList) = vm # filter (needs_off vmnames) vmList"
        using sel on by (simp add: needs_off_def)
      obtain oc si3 where w: "WaitForTasks [PowerOff vm] ?si2 = (oc, si3)"
        by (cases "WaitForTasks [PowerOff vm] ?si2") auto
      have "[PowerOff vm] \<noteq> []" by simp
      from WaitForTasks_events [OF this, of ?si2] w obtain wevs where
        wevs: "trace si3 = trace ?si2 @ Call_CreateFilter [PowerOff vm] # wevs"
        "power_offs wevs = []" "power_offs wevs = []" "waited wevs = []"
        by auto
      then have tr3: "trace si3 = trace si @ ?pre @ wevs"
        by (simp add: emit_def)
      show ?thesis
      proof (cases "oc = Returns")
        case False
        then have eq: "turn_vm_off (vm # vmList) vmnames si = (oc, si3)"
          using sel on w by (cases oc) (simp_all add: Let_def)
        show ?thesis
          unfolding eq nd using tr3 wevs False
          by (intro exI [of _ "?pre @ wevs"]) simp
      next
        case True
        let ?si4 = "emit (Print ''Virtual Machine(s) have been powered OFF successfully'') si3"
        have eq: "turn_vm_off (vm # vmList) vmnames si = turn_vm_off vmList vmnames ?si4"
          using sel on w True by (simp add: Let_def)
        from Cons.IH [of ?si4] obtain evs where
          evs: "trace (snd (turn_vm_off vmList vmnames ?si4)) = trace ?si4 @ evs"
          "power_offs evs = map vm_name (take (length (power_offs evs)) (filter (needs_off vmnames) vmList))"
          "waited evs = map (\<lambda>vm. [PowerOff vm]) (take (length (power_offs evs)) (filter (needs_off vmnames) vmList))"
          "fst (turn_vm_off vmList vmnames ?si4) = Returns \<longrightarrow>
              length (power_offs evs) = length (filter (needs_off vmnames) vmList)"
          "filter (needs_off vmnames) vmList \<noteq> [] \<longrightarrow> power_offs evs \<noteq> []"
          by blast
        let ?all = "?pre @ wevs @ Print ''Virtual Machine(s) have been powered OFF successfully'' # evs"
        have tr: "trace (snd (turn_vm_off vmList vmnames ?si4)) = trace si @ ?all"
          using evs(1) tr3 by (simp add: emit_def)
        have po: "power_offs ?all = vm_name vm # power_offs evs" using wevs by simp
        have wa: "waited ?all = [PowerOff vm] # waited evs" using wevs by simp
        show ?thesis
          unfolding eq nd
          apply (intro exI [of _ ?all] conjI)
             apply (rule tr)
          unfolding po wa
          using evs(2,3,4) by simp_all
      qed
    qed
  qed
qed

section \<open>Properties of the snapshot search\<close>

lemma reverts_append [simp]: "reverts (xs @ ys) = reverts xs @ reverts ys"
  by (induction xs rule: reverts.induct) auto

lemma apply_search_Nil [simp]: "apply_search [] s = s"
  by (cases s) (simp add: apply_search_def)

lemma apply_search_append: "apply_search (e1 @ e2) s = apply_search e2 (apply_search e1 s)"
  by (cases s) (auto simp: apply_search_def)

lemma revert_match_apply: "revert_match level x (snd (snd s)) = apply_search (match_events level x) s"
  by (cases s) (simp add: revert_match_def apply_search_def match_events_def emit_def Let_def)

lemma first_match_Cons:
  "first_match level nm (x # xs) = (if snap_name x = nm then match_events level x else first_match level nm xs)"
  by (simp add: first_match_def)

lemma level3_loop_search: "level3_loop nm zs s = apply_search (search3 nm zs) s"
proof (induction zs)
  case Nil
  show ?case by (simp add: search3_def first_match_def)
next
  case (Cons z zs)
  then show ?case
    by (auto simp: search3_def first_match_Cons revert_match_apply)
qed

lemma level2_loop_search: "level2_loop nm ys s = apply_search (search2 nm ys) s"
proof (induction ys arbitrary: s)
  case Nil
  show ?case by (simp add: search2_def unmatched_def first_match_def)
next
  case (Cons y ys)
  show ?case
  proof (cases "nm = snap_name y")
    case True
    then show ?thesis
      by (simp add: search2_def unmatched_def first_match_Cons revert_match_apply)
  next
    case False
    then have "search2 nm (y # ys) = search3 nm (childSnapshotList y) @ search2 nm ys"
      by (auto simp: search2_def unmatched_def first_match_Cons)
    with False show ?thesis
      by (simp add: Cons.IH level3_loop_search apply_search_append)
  qed
qed

lemma level1_loop_search: "level1_loop nm xs s = apply_search (search1 nm xs) s"
proof (induction xs arbitrary: s)
  case Nil
  show ?case by (simp add: search1_def unmatched_def first_match_def)
next
  case (Cons x xs)
  show ?case
  proof (cases "nm = snap_name x")
    case True
    then show ?thesis
      by (simp add: search1_def unmatched_def first_match_Cons revert_match_apply)
  next
    case False
    then have "search1 nm (x # xs) = search2 nm (childSnapshotList x) @ search1 nm xs"
      by (auto simp: search1_def unmatched_def first_match_Cons)
    with False show ?thesis
      by (simp add: Cons.IH level2_loop_search apply_search_append)
  qed
qed

lemma revert_search_exact:
  "revert_search vmList vmnames nm s =
     (let req = filter (requested vmnames) vmList;
          s' = apply_search (search_events nm (takeWhile has_snapshots req)) s
      in if list_all has_snapshots req then Inr s' else Inl (AttributeError, snd (snd s')))"
proof (induction vmList arbitrary: s)
  case Nil
  show ?case by (simp add: search_events_def)
next
  case (Cons vm vmList)
  show ?case
  proof (cases "vm_name vm \<in> set vmnames")
    case False
    with Cons.IH [of s] show ?thesis by (simp add: requested_def)
  next
    case True
    show ?thesis
    proof (cases "vm_snapshot vm")
      case None
      with True show ?thesis
        by (simp add: requested_def has_snapshots_def search_events_def)
    next
      case (Some i)
      then have ev: "search_events nm (vm # vms) = search1 nm (rootSnapshotList i) @ search_events nm vms" for vms
        by (simp add: search_events_def roots_of_def)
      from True Some show ?thesis
        by (simp add: requested_def has_snapshots_def Cons.IH level1_loop_search ev
              apply_search_append Let_def)
    qed
  qed
qed

lemma reverts_match_events [simp]: "reverts (match_events level x) = [RevertToSnapshot_Task x]"
  by (simp add: match_events_def)

lemma search2_Cons:
  "search2 nm (y # ys) =
     (if snap_name y = nm then match_events ''LEVEL2'' y
      else search3 nm (childSnapshotList y) @ search2 nm ys)"
  by (auto simp: search2_def unmatched_def first_match_Cons)

lemma search1_Cons:
  "search1 nm (x # xs) =
     (if snap_name x = nm then match_events ''LEVEL1'' x
      else search2 nm (childSnapshotList x) @ search1 nm xs)"
  by (auto simp: search1_def unmatched_def first_match_Cons)

lemma search3_Cons:
  "search3 nm (z # zs) = (if snap_name z = nm then match_events ''LEVEL3'' z else search3 nm zs)"
  by (simp add: search3_def first_match_Cons)

lemma search_Nil [simp]: "search3 nm [] = []" "search2 nm [] = []" "search1 nm [] = []"
  by (simp_all add: search3_def search2_def search1_def unmatched_def first_match_def)

lemma search3_reverts:
  "set (reverts (search3 nm zs)) \<subseteq> RevertToSnapshot_Task ` {z \<in> set zs. snap_name z = nm} \<and>
   (reverts (search3 nm zs) \<noteq> [] \<longleftrightarrow> nm \<in> snap_name ` set zs) \<and>
   (reverts (search3 nm zs) = [] \<longrightarrow> search3 nm zs = [])"
  by (induction zs) (auto simp: search3_Cons)

lemma search2_reverts:
  "set (reverts (search2 nm ys)) \<subseteq>
     RevertToSnapshot_Task ` {y \<in> set ys \<union> set (children ys). snap_name y = nm} \<and>
   (reverts (search2 nm ys) \<noteq> [] \<longleftrightarrow> nm \<in> snap_name ` (set ys \<union> set (children ys))) \<and>
   (reverts (search2 nm ys) = [] \<longrightarrow> search2 nm ys = [])"
proof (induction ys)
  case Nil
  show ?case by (simp add: children_def)
next
  case (Cons y ys)
  have ch: "set (children (y # ys)) = set (childSnapshotList y) \<union> set (children ys)"
    by (simp add: children_def)
  show ?case
  proof (cases "snap_name y = nm")
    case True
    then show ?thesis by (auto simp: search2_Cons match_events_def)
  next
    case False
    with Cons.IH search3_reverts [of nm "childSnapshotList y"] show ?thesis
      unfolding ch by (simp add: search2_Cons) blast
  qed
qed

lemma search1_reverts:
  "set (reverts (search1 nm xs)) \<subseteq> RevertToSnapshot_Task ` {x \<in> set (searched xs). snap_name x = nm} \<and>
   (reverts (search1 nm xs) \<noteq> [] \<longleftrightarrow> nm \<in> snap_name ` set (searched xs)) \<and>
   (reverts (search1 nm xs) = [] \<longrightarrow> search1 nm xs = [])"
proof (induction xs)
  case Nil
  show ?case by (simp add: searched_def children_def numeral_2_eq_2 numeral_3_eq_3)
next
  case (Cons x xs)
  have split: "set (searched (x # xs)) =
      insert x (set (childSnapshotList x) \<union> set (children (childSnapshotList x))) \<union> set (searched xs)"
    by (auto simp: searched_def children_def numeral_2_eq_2 numeral_3_eq_3)
  show ?case
  proof (cases "snap_name x = nm")
    case True
    then show ?thesis unfolding split by (auto simp: search1_Cons match_events_def)
  next
    case False
    with Cons.IH search2_reverts [of nm "childSnapshotList x"] show ?thesis
      unfolding split by (simp add: search1_Cons) blast
  qed
qed

lemma searched_append: "set (searched (xs @ ys)) = set (searched xs) \<union> set (searched ys)"
  by (auto simp: searched_def children_def numeral_2_eq_2 numeral_3_eq_3)

lemma search_events_reverts:
  "set (reverts (search_events nm vms)) \<subseteq>
     RevertToSnapshot_Task ` {x \<in> set (searched (concat (map roots_of vms))). snap_name x = nm} \<and>
   (reverts (search_events nm vms) \<noteq> [] \<longleftrightarrow>
      nm \<in> snap_name ` set (searched (concat (map roots_of vms)))) \<and>
   (reverts (search_events nm vms) = [] \<longrightarrow> search_events nm vms = [])"
proof (induction vms)
  case Nil
  show ?case
    by (simp add: search_events_def searched_def children_def numeral_2_eq_2 numeral_3_eq_3)
next
  case (Cons vm vms)
  have ev: "search_events nm (vm # vms) = search1 nm (roots_of vm) @ search_events nm vms"
    by (simp add: search_events_def)
  from Cons.IH search1_reverts [of nm "roots_of vm"] show ?case
    unfolding ev by (simp add: searched_append) blast
qed

lemma revert_vm_exact:
  "revert_vm vmList vmnames nm si =
     (let req = filter (requested vmnames) vmList;
          evs = search_events nm (takeWhile has_snapshots req);
          si1 = si\<lparr>trace := trace si @ evs\<rparr>
      in if \<not> list_all has_snapshots req then (Raises AttributeError, si1)
         else if reverts evs = [] then
           (Returns, emit (Print (''Snapshot *'' @ nm @ ''* not found'')) si1)
         else
           (case WaitForTasks [last (reverts evs)] si1 of
              (Returns, si2) \<Rightarrow> (Returns, emit (Print ''Done reverting'') si2)
            | (oc, si2) \<Rightarrow> (oc, si2)))"
  by (simp add: revert_vm_def revert_search_exact apply_search_def Let_def)

section \<open>The claims\<close>



text \<open>
  C2. Let the host answer with the batches \<open>us\<close>, then the batch \<open>u\<close>, then anything, and
  let the records of \<open>us\<close> and the records \<open>pre\<close> of \<open>u\<close> be processed without an
  exception, leaving the active handles \<open>hs\<close>. If the next record of \<open>u\<close> shows Error for
  a task \<open>t\<close> whose handle is in \<open>hs\<close>, then \<open>WaitForTasks\<close> raises \<open>t.info.error\<close>, whatever
  the later records \<open>post\<close> of the batch and the later answers \<open>rest\<close> are and whichever
  other handles are still active: it makes no receive call after the one that returned
  \<open>u\<close>, and \<open>rest\<close> stays unconsumed.
\<close>

theorem first_error_aborts:
  assumes "CreateFilter si tasks = Inr flt"
    and "updates si = map Inr us @ Inr u # rest"
    and "records u = pre @ (t, c) # post"
    and "for_each change_step (concat (map records us) @ pre) (map str tasks, PNone) = Inr (hs, st)"
    and "str t \<in> set hs"
    and "shows_state c State_error"
  shows "WaitForTasks tasks si =
           (Raises (error (info t)),
            finally_block flt (received (None # map cursor_of us) (emit (Call_CreateFilter tasks) si)))"
proof -
  let ?si = "emit (Call_CreateFilter tasks) si"
  from assms(4) have "set hs \<subseteq> set (map str tasks)" by (rule run_shrinks)
  with assms(5) have ne: "tasks \<noteq> []" by auto
  have "updates ?si = map Inr us @ Inr u # rest"
    using assms(2) by (simp add: emit_def)
  with assms(4) have "wait_loop (map str tasks) PNone None ?si =
      (Raises (error (info t)), hs, received (None # map cursor_of us) ?si)"
    using assms(3,5,6) by (rule wait_loop_error)
  with ne assms(1) show ?thesis by (simp add: WaitForTasks_loop)
qed

text \<open>
  Witness for C2: A fails in the second batch, before any record for B; the Error record
  for B that follows in the same batch and the third batch play no role.
\<close>

theorem first_error_aborts_witness:
  "WaitForTasks [task_A, task_B]
     (host [Inr (batch ''1'' [(task_A, running_record)]),
            Inr (batch ''2'' [(task_C, error_record), (task_A, error_record), (task_B, error_record)]),
            Inr (batch ''3'' [(task_B, success_record)])]) =
   (Raises (MethodFault ''disk full''),
    \<lparr>CreateFilter = (\<lambda>tasks. Inr (Some ''filter-1'')),
     updates = [Inr (batch ''3'' [(task_B, success_record)])],
     trace = [Call_CreateFilter [task_A, task_B], Call_WaitForUpdates None,
              Call_WaitForUpdates (Some ''1''), Call_Destroy ''filter-1'']\<rparr>)"
proof -
  let ?b1 = "batch ''1'' [(task_A, running_record)]"
  let ?b2 = "batch ''2'' [(task_C, error_record), (task_A, error_record), (task_B, error_record)]"
  let ?b3 = "batch ''3'' [(task_B, success_record)]"
  let ?si = "host [Inr ?b1, Inr ?b2, Inr ?b3]"
  have h1: "CreateFilter ?si [task_A, task_B] = Inr (Some ''filter-1'')"
    by (simp add: host_def)
  have h2: "updates ?si = map Inr [?b1] @ Inr ?b2 # [Inr ?b3]"
    by (simp add: host_def)
  have h3: "records ?b2 = [(task_C, error_record)] @ (task_A, error_record) # [(task_B, error_record)]"
    by (simp add: records_def batch_def)
  have h4: "for_each change_step (concat (map records [?b1]) @ [(task_C, error_record)])
              (map str [task_A, task_B], PNone) =
            Inr ([''vim.Task:task-1'', ''vim.Task:task-2''], PState State_error)"
    by (simp add: run_defs process_change_def check_state_def example_defs)
  have h5: "str task_A \<in> set [''vim.Task:task-1'', ''vim.Task:task-2'']"
    by (simp add: task_A_def)
  have h6: "shows_state error_record State_error"
    by (simp add: shows_state_def error_record_def)
  show ?thesis
    using first_error_aborts [OF h1 h2 h3 h4 h5 h6]
    by (simp add: finally_block_def received_def cursor_of_def emit_def host_def batch_def task_A_def)
qed

text \<open>
  C3. When \<open>CreateFilter\<close> has been called (there is at least one task, so that the
  filter spec can be built) and has returned a filter, and \<open>WaitForTasks\<close> returns or raises
  (normal completion, a remote task error, a failing receive call or any other exception
  of the loop), the events of the call are the filter creation, the receive calls and,
  last, one \<open>Destroy\<close> of that filter: the filter is destroyed exactly once before control
  goes back to the caller.
\<close>

theorem filter_destroyed_exactly_once:
  assumes "tasks \<noteq> []"
    and "CreateFilter si tasks = Inr (Some f)" and "fst (WaitForTasks tasks si) \<noteq> Blocks"
  shows "(\<exists>cs. trace (snd (WaitForTasks tasks si)) =
            trace si @ Call_CreateFilter tasks # map Call_WaitForUpdates cs @ [Call_Destroy f]) \<and>
         destroyed (trace (snd (WaitForTasks tasks si))) = destroyed (trace si) @ [f]"
proof -
  from WaitForTasks_shape [OF assms(1), of si] assms(2,3) obtain cs where
    "snd (WaitForTasks tasks si) = emit (Call_Destroy f) (received cs (emit (Call_CreateFilter tasks) si))"
    by (auto simp: Let_def finally_block_def)
  then have "trace (snd (WaitForTasks tasks si)) =
      trace si @ Call_CreateFilter tasks # map Call_WaitForUpdates cs @ [Call_Destroy f]"
    by (simp add: emit_def received_def)
  then show ?thesis by auto
qed

text \<open>
  Witness for C3, one wait for each exit path: a remote task error, normal completion, and
  a receive call that fails.
\<close>

theorem filter_destroyed_exactly_once_witness:
  "fst (WaitForTasks [task_A, task_B] (host [Inr (batch ''1'' [(task_A, error_record)])]))
     = Raises (MethodFault ''disk full'') \<and>
   destroyed (trace (snd (WaitForTasks [task_A, task_B] (host [Inr (batch ''1'' [(task_A, error_record)])]))))
     = [''filter-1''] \<and>
   fst (WaitForTasks [task_B] (host [Inr (batch ''1'' [(task_B, success_record)])])) = Returns \<and>
   destroyed (trace (snd (WaitForTasks [task_B] (host [Inr (batch ''1'' [(task_B, success_record)])]))))
     = [''filter-1''] \<and>
   fst (WaitForTasks [task_B] (host [Inl (MethodFault ''connection lost'')]))
     = Raises (MethodFault ''connection lost'') \<and>
   destroyed (trace (snd (WaitForTasks [task_B] (host [Inl (MethodFault ''connection lost'')]))))
     = [''filter-1'']"
proof -
  let ?err = "host [Inr (batch ''1'' [(task_A, error_record)])]"
  let ?ok = "host [Inr (batch ''1'' [(task_B, success_record)])]"
  let ?lost = "host [Inl (MethodFault ''connection lost'')]"
  have c: "CreateFilter ?err [task_A, task_B] = Inr (Some ''filter-1'')"
    "CreateFilter ?ok [task_B] = Inr (Some ''filter-1'')"
    "CreateFilter ?lost [task_B] = Inr (Some ''filter-1'')"
    by (simp_all add: host_def)
  have t: "trace ?err = []" "trace ?ok = []" "trace ?lost = []"
    by (simp_all add: host_def)
  have e1: "fst (WaitForTasks [task_A, task_B] ?err) = Raises (MethodFault ''disk full'')"
    by (simp add: eval_defs example_defs)
  have e2: "fst (WaitForTasks [task_B] ?ok) = Returns"
    by (simp add: eval_defs example_defs)
  have e3: "fst (WaitForTasks [task_B] ?lost) = Raises (MethodFault ''connection lost'')"
    by (simp add: eval_defs example_defs)
  have d1: "destroyed (trace (snd (WaitForTasks [task_A, task_B] ?err))) = [''filter-1'']"
    using filter_destroyed_exactly_once [OF _ c(1)] e1 t(1) by simp
  have d2: "destroyed (trace (snd (WaitForTasks [task_B] ?ok))) = [''filter-1'']"
    using filter_destroyed_exactly_once [OF _ c(2)] e2 t(2) by simp
  have d3: "destroyed (trace (snd (WaitForTasks [task_B] ?lost))) = [''filter-1'']"
    using filter_destroyed_exactly_once [OF _ c(3)] e3 t(3) by simp
  from e1 e2 e3 d1 d2 d3 show ?thesis by blast
qed

text \<open>
  C4, as amended. With an empty collection of tasks \<open>WaitForTasks\<close> creates no filter and
  makes no receive call, but it does not return: the assignment of the empty object set to
  the filter spec (line 61) raises \<open>TypeError\<close>, before \<open>CreateFilter\<close> is reached, and the
  service instance is left as it was.
\<close>

theorem empty_input_raises:
  "WaitForTasks [] si = (Raises TypeError, si)"
  by (simp add: WaitForTasks_def assign_objectSet_def)

text \<open>
  Counterexample for C4 as stated: the call with no tasks does not return success, it
  raises; it leaves no event behind.
\<close>

theorem empty_input_returns_counterexample:
  "fst (WaitForTasks [] (host [])) = Raises TypeError \<and>
   trace (snd (WaitForTasks [] (host []))) = []"
  by (simp add: WaitForTasks_def assign_objectSet_def host_def)

text \<open>
  C5, as amended. One round of the loop body on a change record. An \<open>info\<close> record with a
  TaskInfo value goes on with the state of that value, an \<open>info.state\<close> record with its
  value itself. An \<open>info\<close> record whose value has no \<open>state\<close> raises \<open>AttributeError\<close>,
  whether the handle of its task is active or not: the state is read before the handle is
  looked up. A record with any other name leaves the local variables as they are. A
  record other than such an \<open>info\<close> record, for a task whose handle is not in the active
  list, leaves the active list as it is and raises nothing. A batch with a record and the
  batch without it give the same outcome and the same events of \<open>WaitForTasks\<close> when the
  record has another name, or is no such \<open>info\<close> record and its handle is none of the
  caller's or is not active whenever the record is reached.
\<close>

theorem change_record_handling:
  "(name c = ''info'' \<longrightarrow> val c = PInfo i \<longrightarrow>
      process_change t (hs, st) c = check_state t hs (PState (state i))) \<and>
   (name c = ''info.state'' \<longrightarrow> process_change t (hs, st) c = check_state t hs (val c)) \<and>
   (malformed c \<longrightarrow> process_change t (hs, st) c = Inl (AttributeError, hs)) \<and>
   (name c \<noteq> ''info'' \<longrightarrow> name c \<noteq> ''info.state'' \<longrightarrow> process_change t (hs, st) c = Inr (hs, st)) \<and>
   (str t \<notin> set hs \<longrightarrow> \<not> malformed c \<longrightarrow> (\<exists>st'. process_change t (hs, st) c = Inr (hs, st'))) \<and>
   (name c \<noteq> ''info'' \<and> name c \<noteq> ''info.state'' \<or>
    \<not> malformed c \<and> str t \<notin> set (map str tasks) \<or>
    \<not> malformed c \<and>
      (\<forall>h1 s1. for_each change_step (concat (map records us) @ pre) (map str tasks, PNone) = Inr (h1, s1)
         \<longrightarrow> str t \<notin> set h1) \<longrightarrow>
      records u1 = pre @ (t, c) # post \<longrightarrow> records u2 = pre @ post \<longrightarrow> version u1 = version u2 \<longrightarrow>
      outcome_and_trace (WaitForTasks tasks (si\<lparr>updates := map Inr us @ Inr u1 # rest\<rparr>)) =
      outcome_and_trace (WaitForTasks tasks (si\<lparr>updates := map Inr us @ Inr u2 # rest\<rparr>)))"
proof (intro conjI impI)
  assume "name c = ''info''" "val c = PInfo i"
  then show "process_change t (hs, st) c = check_state t hs (PState (state i))"
    by (simp add: process_change_def)
next
  assume "name c = ''info.state''"
  then show "process_change t (hs, st) c = check_state t hs (val c)"
    by (simp add: process_change_def)
next
  assume "malformed c"
  then show "process_change t (hs, st) c = Inl (AttributeError, hs)"
    by (auto simp: process_change_def malformed_def split: pyval.splits)
next
  assume "name c \<noteq> ''info''" "name c \<noteq> ''info.state''"
  then show "process_change t (hs, st) c = Inr (hs, st)"
    by (rule process_change_other)
next
  assume "str t \<notin> set hs" "\<not> malformed c"
  then show "\<exists>st'. process_change t (hs, st) c = Inr (hs, st')"
    by (rule process_change_inactive)
next
  assume ign: "name c \<noteq> ''info'' \<and> name c \<noteq> ''info.state'' \<or>
    \<not> malformed c \<and> str t \<notin> set (map str tasks) \<or>
    \<not> malformed c \<and>
      (\<forall>h1 s1. for_each change_step (concat (map records us) @ pre) (map str tasks, PNone) = Inr (h1, s1)
         \<longrightarrow> str t \<notin> set h1)"
    and recs: "records u1 = pre @ (t, c) # post" "records u2 = pre @ post" "version u1 = version u2"
  show "outcome_and_trace (WaitForTasks tasks (si\<lparr>updates := map Inr us @ Inr u1 # rest\<rparr>)) =
        outcome_and_trace (WaitForTasks tasks (si\<lparr>updates := map Inr us @ Inr u2 # rest\<rparr>))"
    using recs
  proof (rule WaitForTasks_skip_record)
    fix h1 s1
    assume run: "for_each change_step (concat (map records us) @ pre) (map str tasks, PNone) = Inr (h1, s1)"
    from run have sub: "set h1 \<subseteq> set (map str tasks)" by (rule run_shrinks)
    from ign consider
      (other) "name c \<noteq> ''info''" "name c \<noteq> ''info.state''"
      | (gone) "\<not> malformed c" "str t \<notin> set h1"
      using run sub by blast
    then show "\<exists>s'. change_step (h1, s1) (t, c) = Inr (h1, s')"
    proof cases
      case other
      then show ?thesis by (simp add: change_step_def process_change_other)
    next
      case gone
      from gone(2,1) show ?thesis
        unfolding change_step_def fst_conv snd_conv by (rule process_change_inactive)
    qed
  qed
qed

text \<open>
  Counterexample for C5 as stated: B is not among the handles waited for, and an \<open>info\<close>
  record for B whose value has no \<open>state\<close> is not ignored; it ends the wait for A with
  \<open>AttributeError\<close>, where the same batch without the record lets the wait return.
\<close>

theorem untracked_record_not_ignored_counterexample:
  "process_change task_B ([''vim.Task:task-1''], PNone) stateless_info_record =
     Inl (AttributeError, [''vim.Task:task-1'']) \<and>
   fst (WaitForTasks [task_A]
      (host [Inr (batch ''1'' [(task_B, stateless_info_record), (task_A, success_record)])])) =
     Raises AttributeError \<and>
   fst (WaitForTasks [task_A] (host [Inr (batch ''1'' [(task_A, success_record)])])) = Returns"
  by (simp add: eval_defs example_defs)

text \<open>
  Witness for C5: an \<open>info\<close> record, a record named \<open>info.progress\<close>, and a wait for A
  with and without an Error record for the untracked B.
\<close>

theorem change_record_handling_witness:
  "process_change task_B ([''vim.Task:task-1''], PNone) success_info_record =
     check_state task_B [''vim.Task:task-1''] (PState State_success) \<and>
   process_change task_A ([''vim.Task:task-1''], PNone) progress_record =
     Inr ([''vim.Task:task-1''], PNone) \<and>
   outcome_and_trace (WaitForTasks [task_A]
      (host [Inr (batch ''1'' [(task_B, error_record), (task_A, success_record)])])) =
   outcome_and_trace (WaitForTasks [task_A] (host [Inr (batch ''1'' [(task_A, success_record)])]))"
proof -
  let ?u1 = "batch ''1'' [(task_B, error_record), (task_A, success_record)]"
  let ?u2 = "batch ''1'' [(task_A, success_record)]"
  have a: "name success_info_record = ''info''"
    "val success_info_record = PInfo \<lparr>state = State_success, error = MethodFault ''''\<rparr>"
    by (simp_all add: success_info_record_def)
  have b: "name progress_record \<noteq> ''info''" "name progress_record \<noteq> ''info.state''"
    by (simp_all add: progress_record_def)
  have c: "name error_record \<noteq> ''info'' \<and> name error_record \<noteq> ''info.state'' \<or>
    \<not> malformed error_record \<and> str task_B \<notin> set (map str [task_A]) \<or>
    \<not> malformed error_record \<and>
      (\<forall>h1 s1. for_each change_step (concat (map records []) @ []) (map str [task_A], PNone) = Inr (h1, s1)
         \<longrightarrow> str task_B \<notin> set h1)"
    by (simp add: example_defs malformed_def)
  have d: "records ?u1 = [] @ (task_B, error_record) # [(task_A, success_record)]"
    "records ?u2 = [] @ [(task_A, success_record)]" "version ?u1 = version ?u2"
    by (simp_all add: records_def batch_def)
  have e: "host [Inr ?u1] = (host [])\<lparr>updates := map Inr [] @ Inr ?u1 # []\<rparr>"
    "host [Inr ?u2] = (host [])\<lparr>updates := map Inr [] @ Inr ?u2 # []\<rparr>"
    by (simp_all add: host_def)
  from change_record_handling
    [where c = success_info_record and i = "\<lparr>state = State_success, error = MethodFault ''''\<rparr>"
       and t = task_B and hs = "[''vim.Task:task-1'']" and st = PNone] a
  have 1: "process_change task_B ([''vim.Task:task-1''], PNone) success_info_record =
     check_state task_B [''vim.Task:task-1''] (PState State_success)"
    by simp
  from change_record_handling
    [where c = progress_record and t = task_A and hs = "[''vim.Task:task-1'']" and st = PNone] b
  have 2: "process_change task_A ([''vim.Task:task-1''], PNone) progress_record =
     Inr ([''vim.Task:task-1''], PNone)"
    by simp
  from change_record_handling
    [where c = error_record and t = task_B and tasks = "[task_A]" and ?u1.0 = ?u1 and pre = "[]"
       and post = "[(task_A, success_record)]" and ?u2.0 = ?u2 and si = "host []" and us = "[]"
       and rest = "[]"]
    c d
  have 3: "outcome_and_trace (WaitForTasks [task_A] (host [Inr ?u1])) =
           outcome_and_trace (WaitForTasks [task_A] (host [Inr ?u2]))"
    unfolding e by blast
  from 1 2 3 show ?thesis by blast
qed

text \<open>
  C6. A record showing Success for a task whose handle is not in the active list raises
  nothing and leaves the list as it is; with distinct handles, processing a Success record
  a second time changes nothing; and when the handle is no longer active at the place of
  the record, a batch with the record and the batch without it give the same outcome and
  the same events of \<open>WaitForTasks\<close>.
\<close>

theorem duplicate_success_is_noop:
  assumes "shows_state c State_success"
  shows "(str t \<notin> set hs \<longrightarrow> process_change t (hs, st) c = Inr (hs, PState State_success)) \<and>
         (distinct hs \<longrightarrow>
            (\<exists>s1. process_change t (hs, st) c = Inr s1 \<and> process_change t s1 c = Inr s1)) \<and>
         (for_each change_step (concat (map records us) @ pre) (map str tasks, PNone) = Inr (hs, st) \<longrightarrow>
          str t \<notin> set hs \<longrightarrow>
          records u1 = pre @ (t, c) # post \<longrightarrow> records u2 = pre @ post \<longrightarrow> version u1 = version u2 \<longrightarrow>
            outcome_and_trace (WaitForTasks tasks (si\<lparr>updates := map Inr us @ Inr u1 # rest\<rparr>)) =
            outcome_and_trace (WaitForTasks tasks (si\<lparr>updates := map Inr us @ Inr u2 # rest\<rparr>)))"
proof (intro conjI impI)
  assume "str t \<notin> set hs"
  with assms show "process_change t (hs, st) c = Inr (hs, PState State_success)"
    by (simp add: process_change_success remove1_idem)
next
  assume "distinct hs"
  then have "str t \<notin> set (remove1 (str t) hs)" by simp
  then have "process_change t (remove1 (str t) hs, PState State_success) c =
             Inr (remove1 (str t) hs, PState State_success)"
    using assms by (simp add: process_change_success remove1_idem)
  with assms show "\<exists>s1. process_change t (hs, st) c = Inr s1 \<and> process_change t s1 c = Inr s1"
    by (simp add: process_change_success)
next
  assume run: "for_each change_step (concat (map records us) @ pre) (map str tasks, PNone) = Inr (hs, st)"
    and gone: "str t \<notin> set hs"
    and recs: "records u1 = pre @ (t, c) # post" "records u2 = pre @ post" "version u1 = version u2"
  show "outcome_and_trace (WaitForTasks tasks (si\<lparr>updates := map Inr us @ Inr u1 # rest\<rparr>)) =
        outcome_and_trace (WaitForTasks tasks (si\<lparr>updates := map Inr us @ Inr u2 # rest\<rparr>))"
    using recs
  proof (rule WaitForTasks_skip_record)
    fix h1 s1
    assume "for_each change_step (concat (map records us) @ pre) (map str tasks, PNone) = Inr (h1, s1)"
    with run have "h1 = hs" by simp
    with gone assms show "\<exists>s'. change_step (h1, s1) (t, c) = Inr (h1, s')"
      by (simp add: change_step_def process_change_success remove1_idem)
  qed
qed

text \<open>
  Witness for C6: B succeeds in the first batch; a second Success record for B in the
  second batch makes no difference.
\<close>

theorem duplicate_success_is_noop_witness:
  "process_change task_B ([''vim.Task:task-1''], PState State_success) success_record =
     Inr ([''vim.Task:task-1''], PState State_success) \<and>
   outcome_and_trace (WaitForTasks [task_A, task_B]
      (host [Inr (batch ''1'' [(task_B, success_record)]),
             Inr (batch ''2'' [(task_B, success_record), (task_A, success_record)])])) =
   outcome_and_trace (WaitForTasks [task_A, task_B]
      (host [Inr (batch ''1'' [(task_B, success_record)]),
             Inr (batch ''2'' [(task_A, success_record)])]))"
proof -
  let ?u0 = "batch ''1'' [(task_B, success_record)]"
  let ?u1 = "batch ''2'' [(task_B, success_record), (task_A, success_record)]"
  let ?u2 = "batch ''2'' [(task_A, success_record)]"
  have a: "shows_state success_record State_success"
    by (simp add: shows_state_def success_record_def)
  have b: "for_each change_step (concat (map records [?u0]) @ []) (map str [task_A, task_B], PNone) =
           Inr ([''vim.Task:task-1''], PState State_success)"
    by (simp add: run_defs process_change_def check_state_def example_defs)
  have c: "str task_B \<notin> set [''vim.Task:task-1'']"
    by (simp add: task_B_def)
  have d: "records ?u1 = [] @ (task_B, success_record) # [(task_A, success_record)]"
    "records ?u2 = [] @ [(task_A, success_record)]" "version ?u1 = version ?u2"
    by (simp_all add: records_def batch_def)
  have e: "host [Inr ?u0, Inr ?u1] = (host [])\<lparr>updates := map Inr [?u0] @ Inr ?u1 # []\<rparr>"
    "host [Inr ?u0, Inr ?u2] = (host [])\<lparr>updates := map Inr [?u0] @ Inr ?u2 # []\<rparr>"
    by (simp_all add: host_def)
  note inst = duplicate_success_is_noop
    [OF a, where t = task_B and hs = "[''vim.Task:task-1'']" and st = "PState State_success"
       and us = "[?u0]" and pre = "[]" and tasks = "[task_A, task_B]" and ?u1.0 = ?u1
       and post = "[(task_A, success_record)]" and ?u2.0 = ?u2 and si = "host []" and rest = "[]"]
  from inst c have 1: "process_change task_B ([''vim.Task:task-1''], PState State_success) success_record =
     Inr ([''vim.Task:task-1''], PState State_success)"
    by blast
  from inst b c d have 2: "outcome_and_trace (WaitForTasks [task_A, task_B] (host [Inr ?u0, Inr ?u1])) =
      outcome_and_trace (WaitForTasks [task_A, task_B] (host [Inr ?u0, Inr ?u2]))"
    unfolding e by blast
  from 1 2 show ?thesis by blast
qed



text \<open>
  C8. The cursors of the receive calls of one \<open>WaitForTasks\<close>: either there is no receive
  call, or the first cursor is \<open>None\<close> and each later one is the version of the batch that
  the call before it returned, the batches being the successive answers of the host.
\<close>

theorem cursor_advances:
  "\<exists>cs. cursors (trace (snd (WaitForTasks tasks si))) = cursors (trace si) @ cs \<and>
        (cs = [] \<or> (\<exists>us rest. updates si = map Inr us @ rest \<and> cs = None # map cursor_of us))"
proof (cases "tasks = []")
  case True
  then have "cursors (trace (snd (WaitForTasks tasks si))) = cursors (trace si) @ []"
    by (simp add: WaitForTasks_empty)
  then show ?thesis by blast
next
  case False
  from WaitForTasks_shape [OF False, of si] obtain cs where
    sh: "snd (WaitForTasks tasks si) =
       (case CreateFilter si tasks of
          Inl e \<Rightarrow> emit (Call_CreateFilter tasks) si
        | Inr flt \<Rightarrow>
            (let si2 = received cs (emit (Call_CreateFilter tasks) si)
             in if fst (WaitForTasks tasks si) = Blocks then si2 else finally_block flt si2))"
    and cs: "cs = [] \<or> (\<exists>us rest. updates si = map Inr us @ rest \<and> cs = None # map cursor_of us)"
    by blast
  show ?thesis
  proof (cases "CreateFilter si tasks")
    case (Inl e)
    with sh have "cursors (trace (snd (WaitForTasks tasks si))) = cursors (trace si) @ []"
      by (simp add: emit_def)
    then show ?thesis by blast
  next
    case (Inr flt)
    with sh have "cursors (trace (snd (WaitForTasks tasks si))) = cursors (trace si) @ cs"
      by (auto simp: emit_def received_def finally_block_def Let_def split: option.splits)
    with cs show ?thesis by blast
  qed
qed

text \<open>Witness for C8: three receive calls, the wait ending with the third batch.\<close>

theorem cursor_advances_witness:
  "cursors (trace (snd (WaitForTasks [task_A, task_B]
      (host [Inr (batch ''1'' [(task_B, success_record)]), Inr (batch ''2'' []),
             Inr (batch ''3'' [(task_A, success_record)]), Inr (batch ''4'' [])]))))
   = [None, Some ''1'', Some ''2'']"
  using cursor_advances [of "[task_A, task_B]"
      "host [Inr (batch ''1'' [(task_B, success_record)]), Inr (batch ''2'' []),
             Inr (batch ''3'' [(task_A, success_record)]), Inr (batch ''4'' [])]"]
  by (simp add: eval_defs example_defs)

text \<open>
  C9. \<open>revert_vm\<close> at inputs where a match is not one revert submitted and waited for,
  and a name that is nowhere is not reported as not found. A machine with two root
  snapshots that each have a child named \<open>golden\<close>: the \<open>break\<close> after the first match
  leaves only the loop over the children, the second root is searched too, both reverts
  are submitted, and only the second is waited for. A requested machine without snapshots:
  line 122 raises \<open>AttributeError\<close> before anything is searched or printed, whether another
  requested machine has the name or no machine has it.
\<close>

theorem revert_vm_submits_without_waiting:
  "revert_vm [vm_twins] [''twins''] ''golden'' (host [Inr (batch ''1'' [(task_B, success_record)])]) =
     (Returns,
      \<lparr>CreateFilter = CreateFilter (host []), updates = [],
       trace = [Print ''LEVEL2 Reverting snapshot  golden'', Call_RevertToSnapshot_Task task_A,
                Print ''LEVEL2 Reverting snapshot  golden'', Call_RevertToSnapshot_Task task_B,
                Call_CreateFilter [task_B], Call_WaitForUpdates None, Call_Destroy ''filter-1'',
                Print ''Done reverting'']\<rparr>) \<and>
   revert_vm [vm_web, vm_app] [''web'', ''app''] ''tested'' (host []) = (Raises AttributeError, host []) \<and>
   revert_vm [vm_web] [''web''] ''absent'' (host []) = (Raises AttributeError, host [])"
  by (simp add: search_defs vm_web_def eval_defs example_defs)

text \<open>
  C10. \<open>turn_vm_on\<close> acts on the machines of the list whose name is requested and whose
  power state is not \<open>poweredOn\<close>, in order. When there is none, it returns, having printed
  one line for each requested machine: nothing is submitted and nothing is waited for. The
  first such machine always gets its \<open>PowerOn\<close> submitted and the singleton list of the
  returned task waited for, after one printed line for each requested machine before it;
  the function goes on with the rest of the list when that wait returns, and ends as the
  wait ends otherwise. Over the whole call, the machines powered on and the task lists
  waited for are those of a prefix of these machines, of all of them when the function
  returns, and of at least one when there is one. The same holds for \<open>turn_vm_off\<close> with
  \<open>poweredOff\<close> and \<open>PowerOff\<close>.
\<close>

theorem power_only_when_needed:
  "(filter (needs_on vmnames) vmList = [] \<longrightarrow>
      turn_vm_on vmList vmnames si =
        (Returns, printed ''Virtual Machine(s) already ON'' (filter (requested vmnames) vmList) si)) \<and>
   (filter (needs_on vmnames) skipped = [] \<longrightarrow> needs_on vmnames vm \<longrightarrow>
      turn_vm_on (skipped @ vm # rest) vmnames si =
        (case WaitForTasks [PowerOn vm]
                (emit (Call_PowerOn (vm_name vm))
                   (emit (Print ''Powering on machine!'')
                      (printed ''Virtual Machine(s) already ON'' (filter (requested vmnames) skipped) si))) of
           (Returns, si3) \<Rightarrow>
             turn_vm_on rest vmnames
               (emit (Print ''Virtual Machine(s) have been powered ON successfully'') si3)
         | (oc, si3) \<Rightarrow> (oc, si3))) \<and>
   (\<exists>evs. trace (snd (turn_vm_on vmList vmnames si)) = trace si @ evs \<and>
         power_ons evs = map vm_name (take (length (power_ons evs)) (filter (needs_on vmnames) vmList)) \<and>
         waited evs = map (\<lambda>vm. [PowerOn vm]) (take (length (power_ons evs)) (filter (needs_on vmnames) vmList)) \<and>
         (fst (turn_vm_on vmList vmnames si) = Returns \<longrightarrow>
            length (power_ons evs) = length (filter (needs_on vmnames) vmList)) \<and>
         (filter (needs_on vmnames) vmList \<noteq> [] \<longrightarrow> power_ons evs \<noteq> [])) \<and>
   (filter (needs_off vmnames) vmList = [] \<longrightarrow>
      turn_vm_off vmList vmnames si =
        (Returns, printed ''Virtual Machine(s) already OFF'' (filter (requested vmnames) vmList) si)) \<and>
   (filter (needs_off vmnames) skipped = [] \<longrightarrow> needs_off vmnames vm \<longrightarrow>
      turn_vm_off (skipped @ vm # rest) vmnames si =
        (case WaitForTasks [PowerOff vm]
                (emit (Call_PowerOff (vm_name vm))
                   (emit (Print ''Powering off machine!'')
                      (printed ''Virtual Machine(s) already OFF'' (filter (requested vmnames) skipped) si))) of
           (Returns, si3) \<Rightarrow>
             turn_vm_off rest vmnames
               (emit (Print ''Virtual Machine(s) have been powered OFF successfully'') si3)
         | (oc, si3) \<Rightarrow> (oc, si3))) \<and>
   (\<exists>evs. trace (snd (turn_vm_off vmList vmnames si)) = trace si @ evs \<and>
         power_offs evs = map vm_name (take (length (power_offs evs)) (filter (needs_off vmnames) vmList)) \<and>
         waited evs = map (\<lambda>vm. [PowerOff vm]) (take (length (power_offs evs)) (filter (needs_off vmnames) vmList)) \<and>
         (fst (turn_vm_off vmList vmnames si) = Returns \<longrightarrow>
            length (power_offs evs) = length (filter (needs_off vmnames) vmList)) \<and>
         (filter (needs_off vmnames) vmList \<noteq> [] \<longrightarrow> power_offs evs \<noteq> []))"
proof (intro conjI impI)
  assume "filter (needs_on vmnames) vmList = []"
  then show "turn_vm_on vmList vmnames si =
        (Returns, printed ''Virtual Machine(s) already ON'' (filter (requested vmnames) vmList) si)"
    by (rule turn_vm_on_nothing)
next
  assume "filter (needs_on vmnames) skipped = []" "needs_on vmnames vm"
  then show "turn_vm_on (skipped @ vm # rest) vmnames si =
        (case WaitForTasks [PowerOn vm]
                (emit (Call_PowerOn (vm_name vm))
                   (emit (Print ''Powering on machine!'')
                      (printed ''Virtual Machine(s) already ON'' (filter (requested vmnames) skipped) si))) of
           (Returns, si3) \<Rightarrow>
             turn_vm_on rest vmnames
               (emit (Print ''Virtual Machine(s) have been powered ON successfully'') si3)
         | (oc, si3) \<Rightarrow> (oc, si3))"
    by (rule turn_vm_on_first)
next
  show "\<exists>evs. trace (snd (turn_vm_on vmList vmnames si)) = trace si @ evs \<and>
         power_ons evs = map vm_name (take (length (power_ons evs)) (filter (needs_on vmnames) vmList)) \<and>
         waited evs = map (\<lambda>vm. [PowerOn vm]) (take (length (power_ons evs)) (filter (needs_on vmnames) vmList)) \<and>
         (fst (turn_vm_on vmList vmnames si) = Returns \<longrightarrow>
            length (power_ons evs) = length (filter (needs_on vmnames) vmList)) \<and>
         (filter (needs_on vmnames) vmList \<noteq> [] \<longrightarrow> power_ons evs \<noteq> [])"
    by (rule turn_vm_on_events)
next
  assume "filter (needs_off vmnames) vmList = []"
  then show "turn_vm_off vmList vmnames si =
        (Returns, printed ''Virtual Machine(s) already OFF'' (filter (requested vmnames) vmList) si)"
    by (rule turn_vm_off_nothing)
next
  assume "filter (needs_off vmnames) skipped = []" "needs_off vmnames vm"
  then show "turn_vm_off (skipped @ vm # rest) vmnames si =
        (case WaitForTasks [PowerOff vm]
                (emit (Call_PowerOff (vm_name vm))
                   (emit (Print ''Powering off machine!'')
                      (printed ''Virtual Machine(s) already OFF'' (filter (requested vmnames) skipped) si))) of
           (Returns, si3) \<Rightarrow>
             turn_vm_off rest vmnames
               (emit (Print ''Virtual Machine(s) have been powered OFF successfully'') si3)
         | (oc, si3) \<Rightarrow> (oc, si3))"
    by (rule turn_vm_off_first)
next
  show "\<exists>evs. trace (snd (turn_vm_off vmList vmnames si)) = trace si @ evs \<and>
         power_offs evs = map vm_name (take (length (power_offs evs)) (filter (needs_off vmnames) vmList)) \<and>
         waited evs = map (\<lambda>vm. [PowerOff vm]) (take (length (power_offs evs)) (filter (needs_off vmnames) vmList)) \<and>
         (fst (turn_vm_off vmList vmnames si) = Returns \<longrightarrow>
            length (power_offs evs) = length (filter (needs_off vmnames) vmList)) \<and>
         (filter (needs_off vmnames) vmList \<noteq> [] \<longrightarrow> power_offs evs \<noteq> [])"
    by (rule turn_vm_off_events)
qed

text \<open>
  Witness for C10: of two requested machines the one that is off is powered on and waited
  for, the one that is on is left alone; powering both off submits \<open>PowerOff\<close> for the one
  that is on, also when the wait then never returns; powering off a machine that is off
  submits nothing.
\<close>

theorem power_only_when_needed_witness:
  "turn_vm_on [vm_db, vm_web] [''web'', ''db''] (host [Inr (batch ''1'' [(task_B, success_record)])]) =
     (Returns,
      \<lparr>CreateFilter = CreateFilter (host []), updates = [],
       trace = [Print ''Virtual Machine(s) already ON'', Print ''Powering on machine!'',
                Call_PowerOn ''web'', Call_CreateFilter [task_B], Call_WaitForUpdates None,
                Call_Destroy ''filter-1'',
                Print ''Virtual Machine(s) have been powered ON successfully'']\<rparr>) \<and>
   turn_vm_off [vm_web, vm_db] [''web'', ''db''] (host []) =
     (Blocks,
      \<lparr>CreateFilter = CreateFilter (host []), updates = [],
       trace = [Print ''Virtual Machine(s) already OFF'', Print ''Powering off machine!'',
                Call_PowerOff ''db'', Call_CreateFilter [task_C], Call_WaitForUpdates None]\<rparr>) \<and>
   turn_vm_off [vm_web] [''web'', ''db''] (host []) =
     (Returns,
      \<lparr>CreateFilter = CreateFilter (host []), updates = [],
       trace = [Print ''Virtual Machine(s) already OFF'']\<rparr>)"
proof -
  let ?si = "host [Inr (batch ''1'' [(task_B, success_record)])]"
  have on_skip: "filter (needs_on [''web'', ''db'']) [vm_db] = []"
    and on_need: "needs_on [''web'', ''db''] vm_web"
    and off_skip: "filter (needs_off [''web'', ''db'']) [vm_web] = []"
    and off_need: "needs_off [''web'', ''db''] vm_db"
    by (simp_all add: vm_eval_defs)
  from power_only_when_needed
    [where skipped = "[vm_db]" and vm = vm_web and rest = "[]" and vmnames = "[''web'', ''db'']"
       and si = ?si] on_skip on_need
  have 1: "turn_vm_on ([vm_db] @ vm_web # []) [''web'', ''db''] ?si =
        (case WaitForTasks [PowerOn vm_web]
                (emit (Call_PowerOn (vm_name vm_web))
                   (emit (Print ''Powering on machine!'')
                      (printed ''Virtual Machine(s) already ON''
                         (filter (requested [''web'', ''db'']) [vm_db]) ?si))) of
           (Returns, si3) \<Rightarrow>
             turn_vm_on [] [''web'', ''db'']
               (emit (Print ''Virtual Machine(s) have been powered ON successfully'') si3)
         | (oc, si3) \<Rightarrow> (oc, si3))"
    by blast
  from power_only_when_needed
    [where skipped = "[vm_web]" and vm = vm_db and rest = "[]" and vmnames = "[''web'', ''db'']"
       and si = "host []"] off_skip off_need
  have 2: "turn_vm_off ([vm_web] @ vm_db # []) [''web'', ''db''] (host []) =
        (case WaitForTasks [PowerOff vm_db]
                (emit (Call_PowerOff (vm_name vm_db))
                   (emit (Print ''Powering off machine!'')
                      (printed ''Virtual Machine(s) already OFF''
                         (filter (requested [''web'', ''db'']) [vm_web]) (host [])))) of
           (Returns, si3) \<Rightarrow>
             turn_vm_off [] [''web'', ''db'']
               (emit (Print ''Virtual Machine(s) have been powered OFF successfully'') si3)
         | (oc, si3) \<Rightarrow> (oc, si3))"
    by blast
  from power_only_when_needed
    [where vmList = "[vm_web]" and vmnames = "[''web'', ''db'']" and si = "host []"] off_skip
  have 3: "turn_vm_off [vm_web] [''web'', ''db''] (host []) =
        (Returns, printed ''Virtual Machine(s) already OFF''
           (filter (requested [''web'', ''db'']) [vm_web]) (host []))"
    by blast
  have a: "turn_vm_on [vm_db, vm_web] [''web'', ''db''] ?si =
     (Returns,
      \<lparr>CreateFilter = CreateFilter (host []), updates = [],
       trace = [Print ''Virtual Machine(s) already ON'', Print ''Powering on machine!'',
                Call_PowerOn ''web'', Call_CreateFilter [task_B], Call_WaitForUpdates None,
                Call_Destroy ''filter-1'',
                Print ''Virtual Machine(s) have been powered ON successfully'']\<rparr>)"
    using 1 by (simp add: vm_eval_defs eval_defs example_defs)
  have b: "turn_vm_off [vm_web, vm_db] [''web'', ''db''] (host []) =
     (Blocks,
      \<lparr>CreateFilter = CreateFilter (host []), updates = [],
       trace = [Print ''Virtual Machine(s) already OFF'', Print ''Powering off machine!'',
                Call_PowerOff ''db'', Call_CreateFilter [task_C], Call_WaitForUpdates None]\<rparr>)"
    using 2 by (simp add: vm_eval_defs eval_defs example_defs)
  have c: "turn_vm_off [vm_web] [''web'', ''db''] (host []) =
     (Returns,
      \<lparr>CreateFilter = CreateFilter (host []), updates = [],
       trace = [Print ''Virtual Machine(s) already OFF'']\<rparr>)"
    using 3 by (simp add: vm_eval_defs host_def)
  from a b c show ?thesis by blast
qed

end
